theory Spec2Isabelle
  imports Main "HOL-Library.Word"
begin

section \<open>Data model of the PMRES solver (Alg\_PMRES.cc)\<close>

text \<open>
  The solver object of \<^verbatim>\<open>Alg_PMRES.cc\<close> is modelled as one record of the members its
  functions read and write. Weights and costs are \<^verbatim>\<open>uint64_t\<close> in the source and are
  64-bit words here, so \<open>+\<close> and \<open>-\<close> wrap around as they do in C++. An \<^verbatim>\<open>assert\<close>
  that fails, a read outside a vector and a division by zero end the function with an
  error value.
\<close>

type_synonym u64 = "64 word"

text \<open>
  Modelled from the spec: the literal type of the oracle (its header is not part of the
  sources). A literal is a signed variable; \<^verbatim>\<open>lit_Undef\<close> is \<open>None\<close> of
  \<open>lit option\<close>.
\<close>

datatype lit = Lit (var: nat) (sign: bool)

fun neg :: "lit \<Rightarrow> lit" where
  "neg (Lit v b) = Lit v (\<not> b)"

datatype lbool = l_True | l_False | l_Undef

datatype error = AssertionFailed | OutOfBounds | DivisionByZero

datatype StatusCode = SATISFIABLE | UNSATISFIABLE | OPTIMUM | UNKNOWN | ERROR

datatype ProblemType = UNWEIGHTED | WEIGHTED

datatype WeightStrategy = WEIGHT_NONE | WEIGHT_NORMAL | WEIGHT_DIVERSIFY

text \<open>
  Modelled from the spec: a soft clause carries a 64-bit weight, an assumption literal and
  a clause body; the formula store owns the variable count, the ordered hard and soft
  clauses, the working weight and the problem type (the header of the formula store is
  not part of the sources).
\<close>

record Soft =
  clause :: "lit list"
  weight :: u64
  assumption_var :: "lit option"

record MaxSATFormula =
  n_vars :: nat
  hard_clauses :: "lit list list"
  soft_clauses :: "Soft list"
  maximum_weight :: u64
  sum_weights :: u64
  problem_type :: ProblemType

text \<open>The oracle as far as the solver writes to it and reads from it.\<close>

record Solver =
  solver_vars :: nat
  solver_clauses :: "lit list list"
  model :: "lbool list"

record PMRES =
  maxsat_formula :: MaxSATFormula
  costComputingFormula :: MaxSATFormula
  solver :: Solver
  coreMapping :: "lit \<rightharpoonup> nat"
  assumptions :: "lit list"
  objFunction :: "lit list"
  coeffs :: "u64 list"
  bestModel :: "lbool list"
  savedModel :: "lbool list"
  lbCost :: u64
  ubCost :: u64
  known_gap :: u64
  maxw_nothardened :: u64
  num_hardened :: nat
  nbCurrentSoft :: nat
  nbCores :: nat
  nbSatisfiable :: nat
  sumSizeCores :: nat
  softs_added :: nat
  clauses_added :: nat
  vars_added :: nat
  lins :: int
  varyingresCG :: bool
  varyingres :: bool
  delete_before_lin :: bool
  incrementalVarres :: bool
  varresFactor :: u64
  timeLimitCores :: int
  weightStrategy :: WeightStrategy

subsection \<open>Formula store\<close>

definition nSoft :: "PMRES \<Rightarrow> nat" where
  "nSoft s = length (soft_clauses (maxsat_formula s))"

definition nHard :: "PMRES \<Rightarrow> nat" where
  "nHard s = length (hard_clauses (maxsat_formula s))"

definition softs :: "PMRES \<Rightarrow> Soft list" where
  "softs s = soft_clauses (maxsat_formula s)"

definition getMaximumWeight :: "PMRES \<Rightarrow> u64" where
  "getMaximumWeight s = maximum_weight (maxsat_formula s)"

definition setMaximumWeight :: "u64 \<Rightarrow> PMRES \<Rightarrow> PMRES" where
  "setMaximumWeight w s = s\<lparr>maxsat_formula := (maxsat_formula s)\<lparr>maximum_weight := w\<rparr>\<rparr>"

definition setProblemType :: "ProblemType \<Rightarrow> PMRES \<Rightarrow> PMRES" where
  "setProblemType t s = s\<lparr>maxsat_formula := (maxsat_formula s)\<lparr>problem_type := t\<rparr>\<rparr>"

definition set_softs :: "Soft list \<Rightarrow> PMRES \<Rightarrow> PMRES" where
  "set_softs cs s = s\<lparr>maxsat_formula := (maxsat_formula s)\<lparr>soft_clauses := cs\<rparr>\<rparr>"

definition addHardClause :: "lit list \<Rightarrow> PMRES \<Rightarrow> PMRES" where
  "addHardClause c s =
     s\<lparr>maxsat_formula :=
         (maxsat_formula s)\<lparr>hard_clauses := hard_clauses (maxsat_formula s) @ [c]\<rparr>\<rparr>"

text \<open>
  \<^verbatim>\<open>addSoftClause(weight, clause)\<close> appends a soft clause whose assumption literal is
  still undefined.
\<close>

definition addSoftClause :: "u64 \<Rightarrow> lit list \<Rightarrow> PMRES \<Rightarrow> PMRES" where
  "addSoftClause w c s =
     set_softs (softs s @ [\<lparr>clause = c, weight = w, assumption_var = None\<rparr>]) s"

text \<open>
  Modelled from the spec: \<^verbatim>\<open>newLiteral\<close> of the formula store returns the positive literal
  of a fresh variable, the next unused variable number.
\<close>

definition newLiteral :: "PMRES \<Rightarrow> lit \<times> PMRES" where
  "newLiteral s =
     (Lit (n_vars (maxsat_formula s)) False,
      s\<lparr>maxsat_formula := (maxsat_formula s)\<lparr>n_vars := Suc (n_vars (maxsat_formula s))\<rparr>\<rparr>)"

text \<open>
  \<^verbatim>\<open>coreMapping[l]\<close> is \<^verbatim>\<open>operator[]\<close> of an associative table: a key that is absent
  reads as 0. (The table also stores that 0; every read of the table goes through
  \<^verbatim>\<open>operator[]\<close>, so the stored entry cannot be told from the absent one.)
\<close>

definition coreIndex :: "PMRES \<Rightarrow> lit \<Rightarrow> nat" where
  "coreIndex s l = (case coreMapping s l of None \<Rightarrow> 0 | Some i \<Rightarrow> i)"

definition nRealSoft :: "PMRES \<Rightarrow> int" where
  "nRealSoft s = int (nSoft s) - int (num_hardened s)"

subsection \<open>Stratification: findNextWeight\<close>

text \<open>
  The loop of \<^verbatim>\<open>findNextWeight\<close> over the soft clauses; \<open>nextWeight\<close> starts at 1.
\<close>

fun findNextWeight_loop :: "Soft list \<Rightarrow> u64 \<Rightarrow> u64 \<Rightarrow> u64" where
  "findNextWeight_loop [] wt nextWeight = nextWeight"
| "findNextWeight_loop (c # cs) wt nextWeight =
     findNextWeight_loop cs wt
       (if weight c > nextWeight \<and> weight c < wt then weight c else nextWeight)"

definition findNextWeight :: "u64 \<Rightarrow> PMRES \<Rightarrow> u64" where
  "findNextWeight wt s = findNextWeight_loop (softs s) wt 1"

text \<open>
  The sentence of the specification, word for word: the greatest soft weight strictly
  less than the given weight, or 1 if there is none.
\<close>

definition spec_findNextWeight :: "u64 \<Rightarrow> PMRES \<Rightarrow> u64" where
  "spec_findNextWeight wt s =
     (let below = filter (\<lambda>w. w < wt) (map weight (softs s))
      in if below = [] then 1 else Max (set below))"

subsection \<open>Cost of a core\<close>

fun computeCostCore_loop :: "PMRES \<Rightarrow> lit list \<Rightarrow> u64 \<Rightarrow> error + u64" where
  "computeCostCore_loop s [] coreCost = Inr coreCost"
| "computeCostCore_loop s (l # ls) coreCost =
     (let indexSoft = coreIndex s l in
      if indexSoft \<ge> nSoft s then Inl OutOfBounds
      else computeCostCore_loop s ls
             (if weight (softs s ! indexSoft) < coreCost
              then weight (softs s ! indexSoft) else coreCost))"

definition computeCostCore :: "lit list \<Rightarrow> PMRES \<Rightarrow> error + u64" where
  "computeCostCore conflict s =
     (if conflict = [] then Inl AssertionFailed
      else if problem_type (maxsat_formula s) = UNWEIGHTED then Inr 1
      else computeCostCore_loop s conflict (- 1))"

subsection \<open>Setting the assumptions\<close>

text \<open>
  The test \<^verbatim>\<open>shouldAdd\<close> of \<^verbatim>\<open>setAssumptions\<close>. C++ evaluates the quotient
  \<^verbatim>\<open>weight / getMaximumWeight()\<close> unless the first disjunct already holds, so a working
  weight of 0 is a division by zero there.
\<close>

definition shouldAdd :: "PMRES \<Rightarrow> Soft \<Rightarrow> error + bool" where
  "shouldAdd s c =
     (if weight c \<ge> getMaximumWeight s \<and> \<not> varyingresCG s then Inr True
      else if getMaximumWeight s = 0 then Inl DivisionByZero
      else Inr (weight c div getMaximumWeight s > 0 \<and> varyingresCG s))"

fun setAssumptions_loop :: "nat list \<Rightarrow> PMRES \<Rightarrow> error + PMRES" where
  "setAssumptions_loop [] s = Inr s"
| "setAssumptions_loop (i # is) s =
     (if i \<ge> nSoft s then Inl OutOfBounds
      else let c = softs s ! i in
        if length (clause c) \<noteq> 1 then Inl AssertionFailed
        else (case shouldAdd s c of
                Inl e \<Rightarrow> Inl e
              | Inr b \<Rightarrow>
                  if b then
                    (case assumption_var c of
                       None \<Rightarrow> Inl AssertionFailed
                     | Some l \<Rightarrow>
                         setAssumptions_loop is
                           (s\<lparr>assumptions := assumptions s @ [neg l],
                              nbCurrentSoft := Suc (nbCurrentSoft s)\<rparr>))
                  else setAssumptions_loop is s))"

definition setAssumptions :: "PMRES \<Rightarrow> error + PMRES" where
  "setAssumptions s =
     setAssumptions_loop [0..<softs_added s] (s\<lparr>nbCurrentSoft := 0, assumptions := []\<rparr>)"

text \<open>
  The soft clauses \<^verbatim>\<open>setAssumptions\<close> selects, as a predicate on the clause: weight at
  least the working weight (standard mode), or a positive quotient by the working weight
  (varying resolution).
\<close>

definition selected :: "PMRES \<Rightarrow> Soft \<Rightarrow> bool" where
  "selected s c =
     ((weight c \<ge> getMaximumWeight s \<and> \<not> varyingresCG s) \<or>
      (weight c div getMaximumWeight s > 0 \<and> varyingresCG s))"

definition assumption_lits :: "Soft list \<Rightarrow> lit list" where
  "assumption_lits cs = map (\<lambda>c. neg (the (assumption_var c))) cs"

text \<open>
  The sentence of the specification, word for word: the negated assumption literals of
  the selected soft clauses, over every soft clause of the formula.
\<close>

definition spec_assumptions :: "PMRES \<Rightarrow> lit list" where
  "spec_assumptions s = assumption_lits (filter (selected s) (softs s))"

subsection \<open>Hardening\<close>

definition hardenLazily :: "PMRES \<Rightarrow> bool" where
  "hardenLazily s = (\<not> delete_before_lin s \<and> \<not> varyingres s)"

definition litTrue :: "lit \<Rightarrow> lbool list \<Rightarrow> bool" where
  "litTrue l m = ((sign l \<and> m ! var l = l_False) \<or> (\<not> sign l \<and> m ! var l = l_True))"

definition solver_addClause :: "lit list \<Rightarrow> PMRES \<Rightarrow> PMRES" where
  "solver_addClause c s =
     s\<lparr>solver := (solver s)\<lparr>solver_clauses := solver_clauses (solver s) @ [c]\<rparr>\<rparr>"

text \<open>
  The flag \<^verbatim>\<open>satisfied\<close> of \<^verbatim>\<open>hardenClauses\<close>: computed only for a clause whose weight
  equals the gap, from the model of the oracle (\<^verbatim>\<open>solver->model\<close>).
\<close>

definition harden_satisfied :: "lbool list \<Rightarrow> u64 \<Rightarrow> Soft \<Rightarrow> error + bool" where
  "harden_satisfied currentModel bound c =
     (if weight c = bound then
        (case clause c of
           [l] \<Rightarrow> if var l < length currentModel then Inr (litTrue l currentModel)
                  else Inl AssertionFailed
         | _ \<Rightarrow> Inl AssertionFailed)
      else Inr False)"

fun hardenClauses_loop :: "u64 \<Rightarrow> nat list \<Rightarrow> PMRES \<Rightarrow> error + PMRES" where
  "hardenClauses_loop bound [] s = Inr s"
| "hardenClauses_loop bound (i # is) s =
     (if i \<ge> nSoft s then Inl OutOfBounds
      else let c = softs s ! i in
        (case harden_satisfied (model (solver s)) bound c of
           Inl e \<Rightarrow> Inl e
         | Inr satisfied \<Rightarrow>
             if weight c > bound \<or> (weight c = bound \<and> satisfied) then
               (case assumption_var c of
                  None \<Rightarrow> Inl AssertionFailed
                | Some l \<Rightarrow>
                    let s1 = solver_addClause [neg l] s;
                        s2 = (if \<not> hardenLazily s1 then addHardClause [neg l] s1 else s1);
                        s3 = set_softs ((softs s2)[i := c\<lparr>weight := 0, assumption_var := None\<rparr>]) s2
                    in hardenClauses_loop bound is (s3\<lparr>num_hardened := Suc (num_hardened s3)\<rparr>))
             else if weight c > maxw_nothardened s then
               hardenClauses_loop bound is (s\<lparr>maxw_nothardened := weight c\<rparr>)
             else hardenClauses_loop bound is s))"

definition hardenClauses :: "PMRES \<Rightarrow> error + PMRES" where
  "hardenClauses s =
     hardenClauses_loop (ubCost s - lbCost s) [0..<softs_added s] (s\<lparr>maxw_nothardened := 0\<rparr>)"

subsection \<open>The PMRES transformation\<close>

fun newLiterals :: "nat \<Rightarrow> PMRES \<Rightarrow> lit list \<times> PMRES" where
  "newLiterals 0 s = ([], s)"
| "newLiterals (Suc k) s =
     (let (p, s1) = newLiteral s; (ps, s2) = newLiterals k s1 in (p # ps, s2))"

definition addSoftClauseAndAssumptionVar :: "u64 \<Rightarrow> lit list \<Rightarrow> PMRES \<Rightarrow> PMRES" where
  "addSoftClauseAndAssumptionVar w c s =
     (let (l, s1) = newLiteral s;
          s2 = addHardClause (c @ [l]) s1;
          s3 = addSoftClause w [neg l] s2;
          idx = nSoft s3 - 1;
          s4 = set_softs ((softs s3)[idx := (softs s3 ! idx)\<lparr>assumption_var := Some l\<rparr>]) s3
      in s4\<lparr>coreMapping := (coreMapping s4)(l \<mapsto> idx)\<rparr>)"

text \<open>One round of the loop \<^verbatim>\<open>for (i = 0; i < n-2; i++)\<close> of \<^verbatim>\<open>encodeMaxRes\<close>.\<close>

definition encodeMaxRes_chain :: "lit list \<Rightarrow> lit list \<Rightarrow> nat \<Rightarrow> PMRES \<Rightarrow> PMRES" where
  "encodeMaxRes_chain core dVars i s =
     (let s1 = (if lins s = 0
                then addHardClause [neg (dVars ! i), dVars ! (i + 1), core ! (i + 1)] s
                else s);
          s2 = addHardClause [dVars ! i, neg (core ! (i + 1))] s1
      in addHardClause [dVars ! i, neg (dVars ! (i + 1))] s2)"

definition encodeMaxRes_soft :: "lit list \<Rightarrow> lit list \<Rightarrow> u64 \<Rightarrow> nat \<Rightarrow> PMRES \<Rightarrow> PMRES" where
  "encodeMaxRes_soft core dVars weightCore i s =
     addSoftClauseAndAssumptionVar weightCore [neg (core ! i), neg (dVars ! i)] s"

definition encodeMaxRes :: "lit list \<Rightarrow> u64 \<Rightarrow> PMRES \<Rightarrow> error + PMRES" where
  "encodeMaxRes core weightCore s =
     (if core = [] then Inl AssertionFailed
      else
        let n = length core;
            (dVars, s1) = newLiterals (n - 1) s;
            s2 = (if lins s1 = 0 then addHardClause core s1 else s1);
            s3 = (if n > 2 then fold (encodeMaxRes_chain core dVars) [0..<n - 2] s2 else s2);
            s4 = (if n > 1
                  then addHardClause [neg (dVars ! (n - 2)), core ! (n - 1)]
                         (addHardClause [dVars ! (n - 2), neg (core ! (n - 1))] s3)
                  else s3)
        in Inr (fold (encodeMaxRes_soft core dVars weightCore) [0..<n - 1] s4))"

subsection \<open>Relaxing a core\<close>

fun relaxCore_loop :: "lit list \<Rightarrow> u64 \<Rightarrow> PMRES \<Rightarrow> error + PMRES" where
  "relaxCore_loop [] weightCore s = Inr s"
| "relaxCore_loop (l # ls) weightCore s =
     (let indexSoft = coreIndex s l in
      if indexSoft \<ge> nSoft s then Inl OutOfBounds
      else if \<not> (weight (softs s ! indexSoft) \<ge> weightCore) then Inl AssertionFailed
      else
        let c = (softs s ! indexSoft)\<lparr>weight := weight (softs s ! indexSoft) - weightCore\<rparr>
        in if weight c = 0
           then relaxCore_loop ls weightCore
                  ((set_softs ((softs s)[indexSoft := c\<lparr>assumption_var := None\<rparr>]) s)
                     \<lparr>num_hardened := Suc (num_hardened s)\<rparr>)
           else relaxCore_loop ls weightCore (set_softs ((softs s)[indexSoft := c]) s))"

definition relaxCore :: "lit list \<Rightarrow> u64 \<Rightarrow> PMRES \<Rightarrow> error + PMRES" where
  "relaxCore conflict weightCore s =
     (if \<not> length conflict > 0 then Inl AssertionFailed
      else if \<not> weightCore > 0 then Inl AssertionFailed
      else (case relaxCore_loop conflict weightCore s of
              Inl e \<Rightarrow> Inl e
            | Inr s1 \<Rightarrow>
                (case encodeMaxRes conflict weightCore s1 of
                   Inl e \<Rightarrow> Inl e
                 | Inr s2 \<Rightarrow> Inr (s2\<lparr>sumSizeCores := sumSizeCores s2 + length conflict\<rparr>))))"

subsection \<open>Bounds and model checking\<close>

definition checkGap :: "PMRES \<Rightarrow> PMRES" where
  "checkGap s =
     (let currentGap = ubCost s - lbCost s
      in if currentGap < known_gap s then s\<lparr>known_gap := currentGap\<rparr> else s)"

text \<open>
  The inner loop of \<^verbatim>\<open>computeCostModelPMRES\<close> over the literals of one clause; it stops
  at the first literal the model makes true.
\<close>

fun clauseUnsatisfied :: "lbool list \<Rightarrow> lit list \<Rightarrow> error + bool" where
  "clauseUnsatisfied m [] = Inr True"
| "clauseUnsatisfied m (l # ls) =
     (if \<not> var l < length m then Inl AssertionFailed
      else if litTrue l m then Inr False
      else clauseUnsatisfied m ls)"

fun computeCostModel_loop :: "lbool list \<Rightarrow> Soft list \<Rightarrow> u64 \<Rightarrow> error + u64" where
  "computeCostModel_loop m [] currentCost = Inr currentCost"
| "computeCostModel_loop m (c # cs) currentCost =
     (case clauseUnsatisfied m (clause c) of
        Inl e \<Rightarrow> Inl e
      | Inr unsatisfied \<Rightarrow>
          computeCostModel_loop m cs
            (if unsatisfied then currentCost + weight c else currentCost))"

definition computeCostModelPMRES :: "lbool list \<Rightarrow> PMRES \<Rightarrow> error + u64" where
  "computeCostModelPMRES currentModel s =
     (if currentModel = [] then Inl AssertionFailed
      else computeCostModel_loop currentModel (soft_clauses (costComputingFormula s)) 0)"

definition saveModels :: "PMRES \<Rightarrow> PMRES" where
  "saveModels s = s\<lparr>savedModel := model (solver s), bestModel := model (solver s)\<rparr>"

definition checkModel :: "PMRES \<Rightarrow> error + bool \<times> PMRES" where
  "checkModel s =
     (case computeCostModelPMRES (model (solver s)) s of
        Inl e \<Rightarrow> Inl e
      | Inr modelCost \<Rightarrow>
          let isBetter = modelCost < ubCost s;
              s1 = (if isBetter then checkGap (saveModels (s\<lparr>ubCost := modelCost\<rparr>)) else s);
              s2 = (if modelCost = ubCost s1 \<and> length (model (solver s1)) > length (bestModel s1)
                    then saveModels s1 else s1)
          in Inr (isBetter, s2))"

text \<open>
  The bound update of \<^verbatim>\<open>weightSearch\<close> on a satisfiable call, and the closing of the gap
  that \<^verbatim>\<open>weightSearch\<close>, \<^verbatim>\<open>coreGuidedLinearSearch\<close> and \<^verbatim>\<open>getModelAfterCG\<close> share
  (\<^verbatim>\<open>assert(modelCost == lbCost); if (lbCost < ubCost) ubCost = lbCost; ...\<close>).
\<close>

definition weightSearch_bound :: "PMRES \<Rightarrow> error + PMRES" where
  "weightSearch_bound s =
     (let s1 = s\<lparr>nbSatisfiable := Suc (nbSatisfiable s)\<rparr> in
      case computeCostModelPMRES (model (solver s1)) s1 of
        Inl e \<Rightarrow> Inl e
      | Inr modelCost \<Rightarrow>
          Inr (if modelCost < ubCost s1
               then s1\<lparr>ubCost := modelCost, savedModel := model (solver s1)\<rparr> else s1))"

definition closeGap :: "PMRES \<Rightarrow> error + PMRES" where
  "closeGap s =
     (case computeCostModelPMRES (model (solver s)) s of
        Inl e \<Rightarrow> Inl e
      | Inr modelCost \<Rightarrow>
          if modelCost \<noteq> lbCost s then Inl AssertionFailed
          else Inr (if lbCost s < ubCost s
                    then s\<lparr>ubCost := lbCost s, savedModel := model (solver s)\<rparr> else s))"

subsection \<open>Oracle bookkeeping\<close>

definition shouldUpdate :: "PMRES \<Rightarrow> bool" where
  "shouldUpdate s = (clauses_added s < nHard s)"

definition updateSolver :: "PMRES \<Rightarrow> PMRES" where
  "updateSolver s =
     s\<lparr>solver := (solver s)
          \<lparr>solver_vars := solver_vars (solver s) + (n_vars (maxsat_formula s) - vars_added s),
           solver_clauses := solver_clauses (solver s) @
                              drop (clauses_added s) (hard_clauses (maxsat_formula s))\<rparr>,
       vars_added := n_vars (maxsat_formula s),
       clauses_added := nHard s,
       softs_added := nSoft s\<rparr>"

definition resetSolver :: "PMRES \<Rightarrow> PMRES" where
  "resetSolver s =
     updateSolver
       (s\<lparr>solver := \<lparr>solver_vars = 0, solver_clauses = [], model = []\<rparr>,
          clauses_added := 0, softs_added := 0, vars_added := 0\<rparr>)"

subsection \<open>Stratification: diversity and varying resolution\<close>

definition nbClausesAbove :: "u64 \<Rightarrow> PMRES \<Rightarrow> nat" where
  "nbClausesAbove w s = length (filter (\<lambda>c. weight c \<ge> w) (softs s))"

definition nbWeightsAbove :: "u64 \<Rightarrow> PMRES \<Rightarrow> nat" where
  "nbWeightsAbove w s = length (remdups (map weight (filter (\<lambda>c. weight c \<ge> w) (softs s))))"

text \<open>
  The test \<^verbatim>\<open>(float) nbClauses / nbWeights.size() > alpha\<close> with \<^verbatim>\<open>alpha = 1.25\<close>, as the
  comparison of the exact quotient: \<open>n / m > 5 / 4\<close>. (With no clause both counts are 0,
  the quotient of the source is not a number and the comparison is false, as it is here.)
\<close>

definition aboveAlpha :: "nat \<Rightarrow> nat \<Rightarrow> bool" where
  "aboveAlpha nbClauses nbWeights = (4 * nbClauses > 5 * nbWeights)"

definition enoughSoftAboveWeight :: "u64 \<Rightarrow> PMRES \<Rightarrow> error + bool" where
  "enoughSoftAboveWeight weightCand s =
     (if \<not> nbSatisfiable s > 0 then Inl AssertionFailed
      else Inr (aboveAlpha (nbClausesAbove weightCand s) (nbWeightsAbove weightCand s) \<or>
                int (nbClausesAbove weightCand s) = nRealSoft s))"

definition moreThanWeight :: "u64 \<Rightarrow> PMRES \<Rightarrow> nat" where
  "moreThanWeight weightCand s = nbClausesAbove weightCand s"

fun resetMaximumWeight_loop :: "Soft list \<Rightarrow> u64 \<Rightarrow> u64" where
  "resetMaximumWeight_loop [] maxW = maxW"
| "resetMaximumWeight_loop (c # cs) maxW =
     resetMaximumWeight_loop cs (if weight c > maxW then weight c else maxW)"

definition resetMaximumWeight :: "PMRES \<Rightarrow> PMRES" where
  "resetMaximumWeight s = setMaximumWeight (resetMaximumWeight_loop (softs s) 1) s"

text \<open>
  The loops of the varying-resolution code may run forever (a factor of 1, or a
  candidate that has reached 0 without passing the test), so they are partial functions:
  \<open>None\<close> is a loop that does not end.
\<close>

partial_function (option) divideDown :: "PMRES \<Rightarrow> u64 \<Rightarrow> (error + u64) option" where
  "divideDown s weightCand =
     (if isl (enoughSoftAboveWeight weightCand s)
      then Some (Inl (projl (enoughSoftAboveWeight weightCand s)))
      else if projr (enoughSoftAboveWeight weightCand s) then Some (Inr weightCand)
      else if varresFactor s = 0 then Some (Inl DivisionByZero)
      else divideDown s (weightCand div varresFactor s))"

definition updateDivisionFactor :: "PMRES \<Rightarrow> (error + PMRES) option" where
  "updateDivisionFactor s =
     (if varresFactor s = 0 then Some (Inl DivisionByZero)
      else map_option (map_sum id (\<lambda>w. setMaximumWeight w s))
             (divideDown s (getMaximumWeight s div varresFactor s)))"

partial_function (option) divideDownLinear :: "PMRES \<Rightarrow> u64 \<Rightarrow> (error + u64) option" where
  "divideDownLinear s nextFactor =
     (if moreThanWeight nextFactor s = nbCurrentSoft s \<and> nextFactor > 1
      then (if varresFactor s = 0 then Some (Inl DivisionByZero)
            else divideDownLinear s (nextFactor div varresFactor s))
      else Some (Inr nextFactor))"

definition updateDivisionFactorLinear :: "PMRES \<Rightarrow> (error + PMRES) option" where
  "updateDivisionFactorLinear s =
     (if varresFactor s = 0 then Some (Inl DivisionByZero)
      else map_option (map_sum id (\<lambda>w. setMaximumWeight w s))
             (divideDownLinear s (getMaximumWeight s div varresFactor s)))"

text \<open>The loop \<^verbatim>\<open>while (maxW > 0) { counter++; maxW = maxW / varresFactor; }\<close>.\<close>

partial_function (option) countDivisions :: "u64 \<Rightarrow> u64 \<Rightarrow> int \<Rightarrow> (error + int) option" where
  "countDivisions f maxW counter =
     (if maxW > 0
      then (if f = 0 then Some (Inl DivisionByZero)
            else countDivisions f (maxW div f) (counter + 1))
      else Some (Inr counter))"

text \<open>
  \<^verbatim>\<open>initializeDivisionFactor\<close>. The first candidate is
  \<^verbatim>\<open>pow(varresFactor, counter - 1)\<close>, a floating-point power of the C library converted
  to \<^verbatim>\<open>uint64_t\<close>; the function \<open>pw\<close> stands for that computation.
\<close>

definition initializeDivisionFactor ::
    "(u64 \<Rightarrow> int \<Rightarrow> u64) \<Rightarrow> bool \<Rightarrow> PMRES \<Rightarrow> (error + PMRES) option" where
  "initializeDivisionFactor pw v s =
     (if \<not> v then Some (Inr (setMaximumWeight 1 s))
      else
        let s1 = resetMaximumWeight s in
        (case countDivisions (varresFactor s1) (getMaximumWeight s1) 0 of
           None \<Rightarrow> None
         | Some (Inl e) \<Rightarrow> Some (Inl e)
         | Some (Inr counter) \<Rightarrow>
             map_option (map_sum id (\<lambda>w. setMaximumWeight w s1))
               (divideDown s1 (pw (varresFactor s1) (counter - 1)))))"

text \<open>The exact power, for the inputs on which the floating-point power is exact.\<close>

definition exact_pow :: "u64 \<Rightarrow> int \<Rightarrow> u64" where
  "exact_pow f k = f ^ nat k"

text \<open>
  \<^verbatim>\<open>findNextWeightDiversity\<close>: the loop carries \<open>nextWeight\<close> and the flag \<open>findNext\<close>.
\<close>

partial_function (option) findNextWeightDiversity_loop ::
    "PMRES \<Rightarrow> u64 \<Rightarrow> bool \<Rightarrow> u64 option" where
  "findNextWeightDiversity_loop s nextWeight findNext =
     (let nw = (if nbSatisfiable s > 1 \<or> findNext then findNextWeight nextWeight s
                else nextWeight)
      in if (aboveAlpha (nbClausesAbove nw s) (nbWeightsAbove nw s) \<and>
             nbClausesAbove nw s > nbCurrentSoft s) \<or>
            int (nbClausesAbove nw s) = nRealSoft s
         then Some nw
         else findNextWeightDiversity_loop s nw (findNext \<or> nbSatisfiable s = 1))"

definition findNextWeightDiversity :: "u64 \<Rightarrow> PMRES \<Rightarrow> (error + u64) option" where
  "findNextWeightDiversity wt s =
     (if weightStrategy s \<noteq> WEIGHT_DIVERSIFY then Some (Inl AssertionFailed)
      else if \<not> nbSatisfiable s > 0 then Some (Inl AssertionFailed)
      else map_option Inr (findNextWeightDiversity_loop s wt False))"

definition updateCurrentWeight :: "WeightStrategy \<Rightarrow> PMRES \<Rightarrow> (error + PMRES) option" where
  "updateCurrentWeight strategy s =
     (if \<not> (strategy = WEIGHT_NORMAL \<or> strategy = WEIGHT_DIVERSIFY) then Some (Inl AssertionFailed)
      else if \<not> varyingresCG s then
        (if strategy = WEIGHT_NORMAL
         then Some (Inr (setMaximumWeight (findNextWeight (getMaximumWeight s) s) s))
         else map_option (map_sum id (\<lambda>w. setMaximumWeight w s))
                (findNextWeightDiversity (getMaximumWeight s) s))
      else updateDivisionFactor s)"

text \<open>
  The sentence of the specification on the initialisation, word for word: the smallest
  power of the factor not exceeding the maximum soft weight. The powers of a factor of
  at least 2 that fit in 64 bits have exponents below 64.
\<close>

definition powers_not_exceeding :: "nat \<Rightarrow> nat \<Rightarrow> nat list" where
  "powers_not_exceeding f m = filter (\<lambda>p. p \<le> m) (map (\<lambda>k. f ^ k) [0..<64])"

definition spec_first_candidate :: "PMRES \<Rightarrow> nat" where
  "spec_first_candidate s =
     Min (set (powers_not_exceeding (unat (varresFactor s))
                 (unat (resetMaximumWeight_loop (softs s) 1))))"

subsection \<open>Initialising the relaxation of the linear phase\<close>

fun initRelaxation_loop :: "Soft list \<Rightarrow> u64 \<Rightarrow> bool \<Rightarrow> PMRES \<Rightarrow> error + (bool \<times> PMRES)" where
  "initRelaxation_loop [] comW unweighted s = Inr (unweighted, s)"
| "initRelaxation_loop (c # cs) comW unweighted s =
     (if getMaximumWeight s = 0 then Inl DivisionByZero
      else let reducedWeight = weight c div getMaximumWeight s in
        if reducedWeight > 0 then
          (case assumption_var c of
             None \<Rightarrow> Inl AssertionFailed
           | Some l \<Rightarrow>
               initRelaxation_loop cs (if comW = 0 then reducedWeight else comW)
                 (unweighted \<and> (comW = 0 \<or> comW = reducedWeight))
                 (s\<lparr>objFunction := objFunction s @ [l], coeffs := coeffs s @ [reducedWeight],
                    nbCurrentSoft := Suc (nbCurrentSoft s)\<rparr>))
        else initRelaxation_loop cs comW unweighted s)"

definition initRelaxation :: "PMRES \<Rightarrow> error + PMRES" where
  "initRelaxation s =
     (case initRelaxation_loop (softs s) 0 True
             (s\<lparr>objFunction := [], coeffs := [], nbCurrentSoft := 0\<rparr>) of
        Inl e \<Rightarrow> Inl e
      | Inr (unweighted, s1) \<Rightarrow>
          Inr (setProblemType
                 (if unweighted \<and> \<not> incrementalVarres s1 then UNWEIGHTED else WEIGHTED) s1))"

subsection \<open>The core-guided loop\<close>

text \<open>
  The oracle is outside the solver: what it answers is an input of the model. One round
  of \<^verbatim>\<open>weightDisjointCores\<close> reads the clock and asks the oracle once; a list of such
  readings drives the loop, and \<open>None\<close> is a loop that has not returned when the list
  ends.
\<close>

datatype oracle_answer = Sat "lbool list" | Unsat "lit list" | Interrupted

record tick =
  elapsed :: int
  answer :: oracle_answer

text \<open>The branch \<^verbatim>\<open>res == l_False\<close> of \<^verbatim>\<open>weightDisjointCores\<close>.\<close>

definition coreStep :: "lit list \<Rightarrow> PMRES \<Rightarrow> error + PMRES" where
  "coreStep conflict s =
     (let s1 = s\<lparr>nbCores := Suc (nbCores s)\<rparr> in
      if \<not> length conflict > 0 then Inl AssertionFailed
      else (case computeCostCore conflict s1 of
              Inl e \<Rightarrow> Inl e
            | Inr coreCost \<Rightarrow>
                relaxCore conflict coreCost (checkGap (s1\<lparr>lbCost := lbCost s1 + coreCost\<rparr>))))"

definition setModel :: "lbool list \<Rightarrow> PMRES \<Rightarrow> PMRES" where
  "setModel m s = s\<lparr>solver := (solver s)\<lparr>model := m\<rparr>\<rparr>"

fun weightDisjointCores :: "tick list \<Rightarrow> PMRES \<Rightarrow> (error + StatusCode \<times> PMRES) option" where
  "weightDisjointCores [] s = None"
| "weightDisjointCores (t # ts) s =
     (if timeLimitCores s > 0 \<and> timeLimitCores s - elapsed t \<le> 0 then Some (Inr (UNKNOWN, s))
      else (case setAssumptions s of
              Inl e \<Rightarrow> Some (Inl e)
            | Inr s1 \<Rightarrow>
                (case answer t of
                   Interrupted \<Rightarrow> Some (Inr (UNKNOWN, s1))
                 | Sat m \<Rightarrow> Some (Inr (SATISFIABLE, setModel m s1))
                 | Unsat conflict \<Rightarrow>
                     (case coreStep conflict s1 of
                        Inl e \<Rightarrow> Some (Inl e)
                      | Inr s2 \<Rightarrow>
                          if lbCost s2 > ubCost s2 then Some (Inr (ERROR, s2))
                          else weightDisjointCores ts s2))))"

text \<open>
  What \<^verbatim>\<open>weightSearch\<close> and \<^verbatim>\<open>coreGuidedLinearSearch\<close> do first with the status that
  \<^verbatim>\<open>weightDisjointCores\<close> returned: the head of their loop bodies.
\<close>

datatype cg_branch = CallGetModelAfterCG | CallLinearSearch | ModelFound

definition weightSearch_branch :: "StatusCode \<Rightarrow> error + cg_branch" where
  "weightSearch_branch us = (if us = OPTIMUM then Inr CallGetModelAfterCG else Inr ModelFound)"

definition coreGuidedLinearSearch_branch :: "StatusCode \<Rightarrow> error + cg_branch" where
  "coreGuidedLinearSearch_branch us =
     (if us = OPTIMUM then Inr CallGetModelAfterCG
      else if us = UNKNOWN then Inr CallLinearSearch
      else if us \<noteq> SATISFIABLE then Inl AssertionFailed
      else Inr ModelFound)"

subsection \<open>Runs of the solver\<close>

text \<open>
  The operations of the solver that change its state. A run of \<^verbatim>\<open>search\<close> is a
  sequence of them, in the order the drivers \<^verbatim>\<open>weightSearch\<close>,
  \<^verbatim>\<open>coreGuidedLinearSearch\<close> and \<^verbatim>\<open>linearSearch\<close> call them, with the answers of the
  oracle as the arguments of \<open>CoreRelaxation\<close> and \<open>OracleModel\<close>.
\<close>

datatype solver_op =
    CoreRelaxation "lit list"
  | OracleModel "lbool list"
  | ModelChecking
  | WeightSearchBound
  | CloseGap
  | Hardening
  | Stratification
  | SetAssumptions
  | ClearAssumptions
  | UpdateSolver
  | ResetSolver
  | InitDivisionFactor bool
  | UpdateDivisionFactorLinear
  | InitRelaxation

fun apply_op :: "(u64 \<Rightarrow> int \<Rightarrow> u64) \<Rightarrow> solver_op \<Rightarrow> PMRES \<Rightarrow> (error + PMRES) option" where
  "apply_op pw (CoreRelaxation conflict) s = Some (coreStep conflict s)"
| "apply_op pw (OracleModel m) s = Some (Inr (setModel m s))"
| "apply_op pw ModelChecking s = Some (map_sum id snd (checkModel s))"
| "apply_op pw WeightSearchBound s = Some (weightSearch_bound s)"
| "apply_op pw CloseGap s = Some (closeGap s)"
| "apply_op pw Hardening s = Some (hardenClauses s)"
| "apply_op pw Stratification s = updateCurrentWeight (weightStrategy s) s"
| "apply_op pw SetAssumptions s = Some (setAssumptions s)"
| "apply_op pw ClearAssumptions s = Some (Inr (s\<lparr>assumptions := []\<rparr>))"
| "apply_op pw UpdateSolver s = Some (Inr (updateSolver s))"
| "apply_op pw ResetSolver s = Some (Inr (resetSolver s))"
| "apply_op pw (InitDivisionFactor v) s = initializeDivisionFactor pw v s"
| "apply_op pw UpdateDivisionFactorLinear s = updateDivisionFactorLinear s"
| "apply_op pw InitRelaxation s = Some (initRelaxation s)"

fun run :: "(u64 \<Rightarrow> int \<Rightarrow> u64) \<Rightarrow> solver_op list \<Rightarrow> PMRES \<Rightarrow> (error + PMRES) option" where
  "run pw [] s = Some (Inr s)"
| "run pw (x # xs) s =
     (case apply_op pw x s of
        None \<Rightarrow> None
      | Some (Inl e) \<Rightarrow> Some (Inl e)
      | Some (Inr s1) \<Rightarrow> run pw xs s1)"

text \<open>The total weight of the soft clauses, as a natural number (no wrap-around).\<close>

definition total_weight :: "PMRES \<Rightarrow> nat" where
  "total_weight s = sum_list (map (\<lambda>c. unat (weight c)) (softs s))"

text \<open>
  The test of \<^verbatim>\<open>hardenClauses\<close> on one clause, for a gap and a model, and the weight that
  one call of the hardener removes.
\<close>

definition hardens_at :: "u64 \<Rightarrow> lbool list \<Rightarrow> Soft \<Rightarrow> bool" where
  "hardens_at bound m c =
     (weight c > bound \<or> (weight c = bound \<and> litTrue (hd (clause c)) m))"

definition hardens :: "PMRES \<Rightarrow> Soft \<Rightarrow> bool" where
  "hardens s c = hardens_at (ubCost s - lbCost s) (model (solver s)) c"

definition hardened :: "Soft \<Rightarrow> Soft" where
  "hardened c = c\<lparr>weight := 0, assumption_var := None\<rparr>"

definition harden_removed :: "PMRES \<Rightarrow> nat" where
  "harden_removed s =
     sum_list (map (\<lambda>c. unat (weight c)) (filter (hardens s) (take (softs_added s) (softs s))))"

text \<open>
  Bookkeeping along a run: the core weights added to \<open>lbCost\<close>, and the weights removed
  by the hardener.
\<close>

definition core_weight :: "solver_op \<Rightarrow> PMRES \<Rightarrow> nat" where
  "core_weight x s =
     (case x of
        CoreRelaxation conflict \<Rightarrow>
          (case computeCostCore conflict s of Inl e \<Rightarrow> 0 | Inr w \<Rightarrow> unat w)
      | _ \<Rightarrow> 0)"

fun absorbed_into_lb :: "(u64 \<Rightarrow> int \<Rightarrow> u64) \<Rightarrow> solver_op list \<Rightarrow> PMRES \<Rightarrow> nat" where
  "absorbed_into_lb pw [] s = 0"
| "absorbed_into_lb pw (x # xs) s =
     core_weight x s +
     (case apply_op pw x s of Some (Inr s1) \<Rightarrow> absorbed_into_lb pw xs s1 | _ \<Rightarrow> 0)"

fun absorbed_into_hardened :: "(u64 \<Rightarrow> int \<Rightarrow> u64) \<Rightarrow> solver_op list \<Rightarrow> PMRES \<Rightarrow> nat" where
  "absorbed_into_hardened pw [] s = 0"
| "absorbed_into_hardened pw (x # xs) s =
     (if x = Hardening then harden_removed s else 0) +
     (case apply_op pw x s of Some (Inr s1) \<Rightarrow> absorbed_into_hardened pw xs s1 | _ \<Rightarrow> 0)"

section \<open>Concrete states\<close>

definition formula0 :: MaxSATFormula where
  "formula0 =
     \<lparr>n_vars = 0, hard_clauses = [], soft_clauses = [], maximum_weight = 1, sum_weights = 0,
      problem_type = WEIGHTED\<rparr>"

definition pmres0 :: PMRES where
  "pmres0 =
     \<lparr>maxsat_formula = formula0, costComputingFormula = formula0,
      solver = \<lparr>solver_vars = 0, solver_clauses = [], model = []\<rparr>,
      coreMapping = Map.empty, assumptions = [], objFunction = [], coeffs = [],
      bestModel = [], savedModel = [], lbCost = 0, ubCost = - 1, known_gap = - 1,
      maxw_nothardened = 0, num_hardened = 0, nbCurrentSoft = 0, nbCores = 0,
      nbSatisfiable = 1, sumSizeCores = 0, softs_added = 0, clauses_added = 0, vars_added = 0,
      lins = 0, varyingresCG = False, varyingres = False, delete_before_lin = False,
      incrementalVarres = False, varresFactor = 2, timeLimitCores = - 1,
      weightStrategy = WEIGHT_NORMAL\<rparr>"

text \<open>
  A soft clause in standard form: the unit clause \<open>\<not>a\<close> with assumption literal \<open>a\<close>,
  where \<open>a\<close> is the positive literal of variable \<open>v\<close>.
\<close>

definition unit_soft :: "nat \<Rightarrow> u64 \<Rightarrow> Soft" where
  "unit_soft v w = \<lparr>clause = [Lit v True], weight = w, assumption_var = Some (Lit v False)\<rparr>"

text \<open>
  A solver over the soft clauses of the given weights, clause \<open>i\<close> on variable \<open>i\<close>, all of
  them known to the oracle and registered in the core mapping.
\<close>

definition with_softs :: "u64 list \<Rightarrow> PMRES" where
  "with_softs ws =
     pmres0
       \<lparr>maxsat_formula := formula0\<lparr>n_vars := length ws,
                                   soft_clauses := map (\<lambda>i. unit_soft i (ws ! i)) [0..<length ws]\<rparr>,
        coreMapping := (\<lambda>l. if var l < length ws \<and> \<not> sign l then Some (var l) else None),
        softs_added := length ws, vars_added := length ws\<rparr>"

section \<open>Evaluating the concrete states\<close>

lemma softs_with_softs:
  "softs (with_softs ws) = map (\<lambda>i. unit_soft i (ws ! i)) [0..<length ws]"
  by (simp add: with_softs_def softs_def)

lemma nSoft_with_softs: "nSoft (with_softs ws) = length ws"
  by (simp add: with_softs_def nSoft_def)

lemma coreIndex_with_softs:
  "v < length ws \<Longrightarrow> coreIndex (with_softs ws) (Lit v False) = v"
  by (simp add: with_softs_def coreIndex_def)

lemma upt_2: "[0..<2] = [0, 1]"
  by (simp add: upt_rec)

lemma upt_3: "[0..<3] = [0, 1, 2]"
  by (simp add: upt_rec)

lemma upt_4: "[0..<4] = [0, 1, 2, 3]"
  by (simp add: upt_rec)

section \<open>findNextWeight\<close>

lemma findNextWeight_loop_Max:
  "findNextWeight_loop cs wt n = Max (insert n (set (filter (\<lambda>w. w < wt) (map weight cs))))"
proof (induction cs arbitrary: n)
  case Nil
  then show ?case by simp
next
  case (Cons c cs)
  let ?S = "set (filter (\<lambda>w. w < wt) (map weight cs))"
  show ?case
  proof (cases "weight c < wt")
    case True
    have "Max (insert n (insert (weight c) ?S)) = Max (insert (max n (weight c)) ?S)"
      by (cases "?S = {}") (simp_all add: max.assoc max.commute)
    moreover have "(if weight c > n \<and> weight c < wt then weight c else n) = max n (weight c)"
      using True by (auto simp: max_def)
    ultimately show ?thesis using True Cons.IH by simp
  next
    case False
    then show ?thesis using Cons.IH by simp
  qed
qed

text \<open>
  C7, as the code has it: \<^verbatim>\<open>findNextWeight(w)\<close> returns the greater of 1 and the greatest
  soft weight strictly less than \<open>w\<close> (1 if no soft weight is strictly less than \<open>w\<close>).
  The search starts at 1, so a soft weight of 0 (a clause already relaxed to 0 or
  hardened) is never returned.
\<close>

theorem findNextWeight_floor_one:
  "findNextWeight wt s = max 1 (spec_findNextWeight wt s)"
proof -
  let ?below = "filter (\<lambda>w. w < wt) (map weight (softs s))"
  show ?thesis
  proof (cases "?below = []")
    case True
    then show ?thesis
      by (simp add: findNextWeight_def spec_findNextWeight_def findNextWeight_loop_Max Let_def)
  next
    case False
    then have "set ?below \<noteq> {}" unfolding set_empty .
    then have "Max (insert 1 (set ?below)) = max 1 (Max (set ?below))"
      by simp
    then show ?thesis using False
      by (simp add: findNextWeight_def spec_findNextWeight_def findNextWeight_loop_Max Let_def)
  qed
qed

text \<open>
  C7 as the claim states it fails on a formula with a soft clause of weight 0 beside one of
  weight 7: for \<open>w = 7\<close> the greatest soft weight strictly less than \<open>w\<close> is 0, and the code
  returns 1.
\<close>

theorem findNextWeight_counterexample:
  "findNextWeight 7 (with_softs [0, 7]) = 1 \<and> spec_findNextWeight 7 (with_softs [0, 7]) = 0"
  by (simp add: findNextWeight_def spec_findNextWeight_def softs_with_softs upt_2 unit_soft_def)

section \<open>computeCostCore\<close>

lemma computeCostCore_loop_Min:
  "\<forall>l \<in> set ls. coreIndex s l < nSoft s \<Longrightarrow>
   computeCostCore_loop s ls c =
     Inr (Min (insert c ((\<lambda>l. weight (softs s ! coreIndex s l)) ` set ls)))"
proof (induction ls arbitrary: c)
  case Nil
  then show ?case by simp
next
  case (Cons l ls)
  let ?w = "weight (softs s ! coreIndex s l)"
  let ?S = "(\<lambda>l. weight (softs s ! coreIndex s l)) ` set ls"
  have "(if ?w < c then ?w else c) = min c ?w" by (auto simp: min_def)
  moreover have "Min (insert c (insert ?w ?S)) = Min (insert (min c ?w) ?S)"
    by (cases "?S = {}") (simp_all add: min.assoc min.commute)
  ultimately show ?case using Cons by (simp add: Let_def)
qed

lemma computeCostCore_weighted:
  assumes "conflict \<noteq> []"
    and "problem_type (maxsat_formula s) \<noteq> UNWEIGHTED"
    and r: "\<forall>l \<in> set conflict. coreIndex s l < nSoft s"
  shows "computeCostCore conflict s =
           Inr (Min ((\<lambda>l. weight (softs s ! coreIndex s l)) ` set conflict))"
proof -
  let ?S = "(\<lambda>l. weight (softs s ! coreIndex s l)) ` set conflict"
  have ne: "?S \<noteq> {}" using assms(1) by simp
  have "Min (insert (- 1) ?S) = min (- 1) (Min ?S)" using ne by simp
  also have "\<dots> = Min ?S" by (simp add: min_def word_order.extremum_unique)
  finally show ?thesis
    using assms(1,2) computeCostCore_loop_Min[OF r] by (simp add: computeCostCore_def)
qed

text \<open>
  C6: for every non-empty conflict, \<^verbatim>\<open>computeCostCore\<close> returns 1 when the problem type
  is unweighted, and otherwise the minimum, over the literals \<open>l\<close> of the conflict, of the
  weight of the soft clause at index \<^verbatim>\<open>coreMapping[l]\<close> (every such index being the index
  of a soft clause).
\<close>

theorem computeCostCore_min:
  assumes "conflict \<noteq> []"
  shows "(problem_type (maxsat_formula s) = UNWEIGHTED \<longrightarrow> computeCostCore conflict s = Inr 1) \<and>
         (problem_type (maxsat_formula s) \<noteq> UNWEIGHTED \<and>
          (\<forall>l \<in> set conflict. coreIndex s l < nSoft s) \<longrightarrow>
            computeCostCore conflict s =
              Inr (Min ((\<lambda>l. weight (softs s ! coreIndex s l)) ` set conflict)))"
  using assms computeCostCore_weighted[of conflict s] by (simp add: computeCostCore_def)

theorem computeCostCore_min_witness:
  "computeCostCore [Lit 0 False, Lit 1 False] (with_softs [5, 3]) = Inr 3 \<and>
   computeCostCore [Lit 0 False] (setProblemType UNWEIGHTED (with_softs [1])) = Inr 1"
proof -
  have "computeCostCore [Lit 0 False, Lit 1 False] (with_softs [5, 3]) =
          Inr (Min ((\<lambda>l. weight (softs (with_softs [5, 3]) ! coreIndex (with_softs [5, 3]) l)) `
                    set [Lit 0 False, Lit 1 False]))"
    using computeCostCore_min[of "[Lit 0 False, Lit 1 False]" "with_softs [5, 3]"]
    by (simp add: coreIndex_with_softs nSoft_with_softs) (simp add: with_softs_def formula0_def)
  moreover have "computeCostCore [Lit 0 False] (setProblemType UNWEIGHTED (with_softs [1])) = Inr 1"
    using computeCostCore_min[of "[Lit 0 False]" "setProblemType UNWEIGHTED (with_softs [1])"]
    by (simp add: setProblemType_def)
  ultimately show ?thesis
    by (simp add: coreIndex_with_softs softs_with_softs upt_2 unit_soft_def)
qed

section \<open>setAssumptions\<close>

lemma map_nth_upt_take: "k \<le> length xs \<Longrightarrow> map ((!) xs) [0..<k] = take k xs"
  by (simp add: list_eq_iff_nth_eq)

lemma shouldAdd_selected: "shouldAdd s c = Inr b \<Longrightarrow> b = selected s c"
  by (auto simp: shouldAdd_def selected_def split: if_splits)

lemma setAssumptions_loop_result:
  "setAssumptions_loop is s = Inr s' \<Longrightarrow>
   s' = s\<lparr>assumptions := assumptions s @
                            assumption_lits (filter (selected s) (map ((!) (softs s)) is)),
           nbCurrentSoft := nbCurrentSoft s +
                            length (filter (selected s) (map ((!) (softs s)) is))\<rparr> \<and>
   (\<forall>i \<in> set is. i < nSoft s)"
proof (induction "is" arbitrary: s)
  case Nil
  then show ?case by (simp add: assumption_lits_def)
next
  case (Cons i "is")
  from Cons.prems have i: "i < nSoft s" by (simp split: if_splits)
  let ?c = "softs s ! i"
  from Cons.prems i obtain b where b: "shouldAdd s ?c = Inr b"
    by (auto simp: Let_def split: if_splits sum.splits)
  then have sel: "b = selected s ?c" by (rule shouldAdd_selected)
  show ?case
  proof (cases b)
    case True
    with Cons.prems i b obtain l where l: "assumption_var ?c = Some l"
      by (auto simp: Let_def split: if_splits option.splits)
    let ?s1 = "s\<lparr>assumptions := assumptions s @ [neg l],
                  nbCurrentSoft := Suc (nbCurrentSoft s)\<rparr>"
    from Cons.prems i b True l have "setAssumptions_loop is ?s1 = Inr s'"
      by (auto simp: Let_def split: if_splits)
    from Cons.IH[OF this] have
      "s' = ?s1\<lparr>assumptions := assumptions ?s1 @
                            assumption_lits (filter (selected ?s1) (map ((!) (softs ?s1)) is)),
           nbCurrentSoft := nbCurrentSoft ?s1 +
                            length (filter (selected ?s1) (map ((!) (softs ?s1)) is))\<rparr>"
      and "\<forall>i \<in> set is. i < nSoft ?s1" by simp_all
    moreover have "selected ?s1 = selected s" "softs ?s1 = softs s" "nSoft ?s1 = nSoft s"
      by (simp_all add: selected_def softs_def nSoft_def getMaximumWeight_def fun_eq_iff)
    ultimately show ?thesis using i sel True l
      by (simp add: assumption_lits_def)
  next
    case False
    with Cons.prems i b have "setAssumptions_loop is s = Inr s'"
      by (auto simp: Let_def split: if_splits)
    from Cons.IH[OF this] show ?thesis using i sel False by simp
  qed
qed

text \<open>
  C4, as the code has it: after \<^verbatim>\<open>setAssumptions\<close> the assumption vector holds exactly
  the negated assumption literals of the selected soft clauses among the first
  \<^verbatim>\<open>softs_added\<close> soft clauses of the formula (those the oracle has been told of), in
  the order of the formula, and \<^verbatim>\<open>nbCurrentSoft\<close> is their number. A soft clause is
  selected when its weight is at least the working weight (standard mode), or when its
  quotient by the working weight is positive (varying resolution).
\<close>

theorem setAssumptions_softs_added:
  assumes "setAssumptions s = Inr s'"
  shows "softs_added s \<le> nSoft s \<and>
         assumptions s' =
           assumption_lits (filter (selected s) (take (softs_added s) (softs s))) \<and>
         nbCurrentSoft s' = length (filter (selected s) (take (softs_added s) (softs s)))"
proof -
  let ?s0 = "s\<lparr>nbCurrentSoft := 0, assumptions := []\<rparr>"
  have eqs: "selected ?s0 = selected s" "softs ?s0 = softs s" "nSoft ?s0 = nSoft s"
    by (simp_all add: selected_def softs_def nSoft_def getMaximumWeight_def fun_eq_iff)
  from assms have "setAssumptions_loop [0..<softs_added s] ?s0 = Inr s'"
    by (simp add: setAssumptions_def)
  from setAssumptions_loop_result[OF this]
  have r: "s' = ?s0\<lparr>assumptions := assumptions ?s0 @
                assumption_lits (filter (selected s) (map ((!) (softs s)) [0..<softs_added s])),
              nbCurrentSoft := nbCurrentSoft ?s0 +
                length (filter (selected s) (map ((!) (softs s)) [0..<softs_added s]))\<rparr>"
    and b: "\<forall>i \<in> set [0..<softs_added s]. i < nSoft s"
    unfolding eqs by simp_all
  have le: "softs_added s \<le> nSoft s"
  proof (rule ccontr)
    assume "\<not> softs_added s \<le> nSoft s"
    then have "nSoft s \<in> set [0..<softs_added s]" by simp
    with b show False by blast
  qed
  then have "map ((!) (softs s)) [0..<softs_added s] = take (softs_added s) (softs s)"
    by (simp add: map_nth_upt_take nSoft_def softs_def)
  with r le show ?thesis by simp
qed

text \<open>
  C4 as the claim states it fails when the formula holds a soft clause the oracle has not
  been told of yet, as it does after a core has been relaxed: of two soft clauses of weight
  5 with \<^verbatim>\<open>softs_added = 1\<close>, only the first is assumed.
\<close>

definition two_softs_one_added :: PMRES where
  "two_softs_one_added = (with_softs [5, 5])\<lparr>softs_added := 1\<rparr>"

theorem setAssumptions_counterexample:
  "map_sum id assumptions (setAssumptions two_softs_one_added) = Inr [Lit 0 True] \<and>
   map_sum id nbCurrentSoft (setAssumptions two_softs_one_added) = Inr 1 \<and>
   spec_assumptions two_softs_one_added = [Lit 0 True, Lit 1 True]"
  by (simp add: two_softs_one_added_def setAssumptions_def with_softs_def formula0_def pmres0_def
      nSoft_def softs_def shouldAdd_def getMaximumWeight_def unit_soft_def upt_2 Let_def
      spec_assumptions_def selected_def assumption_lits_def)

theorem setAssumptions_softs_added_witness:
  "assumptions (projr (setAssumptions (with_softs [5, 0]))) = [Lit 0 True] \<and>
   nbCurrentSoft (projr (setAssumptions (with_softs [5, 0]))) = 1"
proof -
  have "setAssumptions (with_softs [5, 0]) = Inr (projr (setAssumptions (with_softs [5, 0])))"
    by (simp add: setAssumptions_def with_softs_def formula0_def pmres0_def
      nSoft_def softs_def shouldAdd_def getMaximumWeight_def unit_soft_def upt_2 Let_def)
  from setAssumptions_softs_added[OF this] show ?thesis
    by (simp add: with_softs_def formula0_def pmres0_def softs_def unit_soft_def upt_2
        selected_def assumption_lits_def getMaximumWeight_def)
qed

section \<open>hardenClauses\<close>

lemma Max_insert_absorb:
  fixes a b :: "'a::linorder"
  assumes "finite S" and "a \<le> b"
  shows "Max (insert a (insert b S)) = Max (insert b S)"
proof -
  have "b \<le> Max (insert b S)" using assms(1) by simp
  with assms(2) have "a \<le> Max (insert b S)" by (rule order_trans)
  moreover have "Max (insert a (insert b S)) = max a (Max (insert b S))"
    using assms(1) by simp
  ultimately show ?thesis by (simp add: max_absorb2)
qed

lemma harden_satisfied_hardens_at:
  "harden_satisfied m bound c = Inr sat \<Longrightarrow>
   (weight c > bound \<or> (weight c = bound \<and> sat)) = hardens_at bound m c"
  by (auto simp: harden_satisfied_def hardens_at_def split: if_splits list.splits)

text \<open>The hard unit clause that hardening a soft clause adds.\<close>

definition unit_of :: "Soft \<Rightarrow> lit list" where
  "unit_of c = [neg (the (assumption_var c))]"

text \<open>The state after one round of the loop of \<^verbatim>\<open>hardenClauses\<close> that raises no error.\<close>

definition harden_round :: "u64 \<Rightarrow> nat \<Rightarrow> PMRES \<Rightarrow> PMRES" where
  "harden_round bound i s =
     (if hardens_at bound (model (solver s)) (softs s ! i) then
        s\<lparr>solver := (solver s)\<lparr>solver_clauses := solver_clauses (solver s) @ [unit_of (softs s ! i)]\<rparr>,
          maxsat_formula := (maxsat_formula s)
            \<lparr>hard_clauses := hard_clauses (maxsat_formula s) @
                (if hardenLazily s then [] else [unit_of (softs s ! i)]),
             soft_clauses := (softs s)[i := hardened (softs s ! i)]\<rparr>,
          num_hardened := Suc (num_hardened s)\<rparr>
      else if weight (softs s ! i) > maxw_nothardened s
      then s\<lparr>maxw_nothardened := weight (softs s ! i)\<rparr>
      else s)"

lemma hardenClauses_loop_Cons:
  assumes "hardenClauses_loop bound (i # is) s = Inr s'"
  shows "i < nSoft s \<and> hardenClauses_loop bound is (harden_round bound i s) = Inr s'"
proof -
  let ?c = "softs s ! i"
  from assms have i: "i < nSoft s" by (simp split: if_splits)
  from assms i obtain sat where sat: "harden_satisfied (model (solver s)) bound ?c = Inr sat"
    by (auto simp: Let_def split: if_splits sum.splits)
  note H = harden_satisfied_hardens_at[OF sat]
  show ?thesis
  proof (cases "hardens_at bound (model (solver s)) ?c")
    case True
    with assms i sat H obtain l where l: "assumption_var ?c = Some l"
      by (auto simp: Let_def split: if_splits option.splits)
    have "harden_round bound i s =
        (let s1 = solver_addClause [neg l] s;
             s2 = (if \<not> hardenLazily s1 then addHardClause [neg l] s1 else s1);
             s3 = set_softs ((softs s2)[i := ?c\<lparr>weight := 0, assumption_var := None\<rparr>]) s2
         in s3\<lparr>num_hardened := Suc (num_hardened s3)\<rparr>)"
      using True l
      by (simp add: harden_round_def Let_def solver_addClause_def addHardClause_def set_softs_def
          softs_def hardenLazily_def hardened_def unit_of_def)
    with assms i sat H True l show ?thesis by (simp add: Let_def)
  next
    case False
    with assms i sat H show ?thesis
      by (auto simp: Let_def harden_round_def split: if_splits)
  qed
qed

lemma harden_round_frame:
  "lbCost (harden_round bound i s) = lbCost s"
  "ubCost (harden_round bound i s) = ubCost s"
  "known_gap (harden_round bound i s) = known_gap s"
  "model (solver (harden_round bound i s)) = model (solver s)"
  "hardenLazily (harden_round bound i s) = hardenLazily s"
  "nSoft (harden_round bound i s) = nSoft s"
  "length (softs (harden_round bound i s)) = length (softs s)"
  by (simp_all add: harden_round_def hardenLazily_def nSoft_def softs_def)

lemma harden_round_softs:
  "softs (harden_round bound i s) =
     (if hardens_at bound (model (solver s)) (softs s ! i)
      then (softs s)[i := hardened (softs s ! i)] else softs s)"
  by (simp add: harden_round_def softs_def)

lemma harden_round_nth:
  "j \<noteq> i \<Longrightarrow> softs (harden_round bound i s) ! j = softs s ! j"
  by (simp add: harden_round_softs)

lemma harden_round_map_nth:
  "i \<notin> set is \<Longrightarrow> map ((!) (softs (harden_round bound i s))) is = map ((!) (softs s)) is"
  by (rule map_cong[OF refl]) (metis harden_round_nth)

lemma hardenClauses_loop_frame:
  "hardenClauses_loop bound is s = Inr s' \<Longrightarrow>
   (\<forall>i \<in> set is. i < nSoft s) \<and> length (softs s') = length (softs s) \<and>
   lbCost s' = lbCost s \<and> ubCost s' = ubCost s \<and> known_gap s' = known_gap s \<and>
   model (solver s') = model (solver s)"
proof (induction "is" arbitrary: s)
  case Nil
  then show ?case by simp
next
  case (Cons i "is")
  from hardenClauses_loop_Cons[OF Cons.prems]
  have i: "i < nSoft s" and r: "hardenClauses_loop bound is (harden_round bound i s) = Inr s'"
    by simp_all
  from Cons.IH[OF r] i show ?case by (simp add: harden_round_frame)
qed

lemma hardenClauses_loop_softs:
  "distinct is \<Longrightarrow> hardenClauses_loop bound is s = Inr s' \<Longrightarrow> j < length (softs s) \<Longrightarrow>
   softs s' ! j =
     (if j \<in> set is \<and> hardens_at bound (model (solver s)) (softs s ! j)
      then hardened (softs s ! j) else softs s ! j)"
proof (induction "is" arbitrary: s)
  case Nil
  then show ?case by simp
next
  case (Cons i "is")
  from hardenClauses_loop_Cons[OF Cons.prems(2)]
  have r: "hardenClauses_loop bound is (harden_round bound i s) = Inr s'" by simp
  from Cons.prems(1) have d: "distinct is" and ni: "i \<notin> set is" by simp_all
  have j': "j < length (softs (harden_round bound i s))"
    using Cons.prems(3) by (simp add: harden_round_frame)
  note ih = Cons.IH[OF d r j', unfolded harden_round_frame]
  show ?case
  proof (cases "j = i")
    case True
    with ih ni Cons.prems(3) show ?thesis by (simp add: harden_round_softs)
  next
    case False
    with ih show ?thesis by (simp add: harden_round_nth)
  qed
qed

lemma hardenClauses_loop_clauses:
  "distinct is \<Longrightarrow> hardenClauses_loop bound is s = Inr s' \<Longrightarrow>
   solver_clauses (solver s') = solver_clauses (solver s) @
     map unit_of (filter (hardens_at bound (model (solver s))) (map ((!) (softs s)) is)) \<and>
   hard_clauses (maxsat_formula s') = hard_clauses (maxsat_formula s) @
     (if hardenLazily s then []
      else map unit_of (filter (hardens_at bound (model (solver s))) (map ((!) (softs s)) is))) \<and>
   num_hardened s' = num_hardened s +
     length (filter (hardens_at bound (model (solver s))) (map ((!) (softs s)) is))"
proof (induction "is" arbitrary: s)
  case Nil
  then show ?case by simp
next
  case (Cons i "is")
  from hardenClauses_loop_Cons[OF Cons.prems(2)]
  have r: "hardenClauses_loop bound is (harden_round bound i s) = Inr s'" by simp
  from Cons.prems(1) have d: "distinct is" and ni: "i \<notin> set is" by simp_all
  note ih = Cons.IH[OF d r, unfolded harden_round_frame harden_round_map_nth[OF ni]]
  have f: "solver_clauses (solver (harden_round bound i s)) = solver_clauses (solver s) @
            (if hardens_at bound (model (solver s)) (softs s ! i) then [unit_of (softs s ! i)] else [])"
    "hard_clauses (maxsat_formula (harden_round bound i s)) = hard_clauses (maxsat_formula s) @
            (if hardens_at bound (model (solver s)) (softs s ! i) \<and> \<not> hardenLazily s
             then [unit_of (softs s ! i)] else [])"
    "num_hardened (harden_round bound i s) = num_hardened s +
            (if hardens_at bound (model (solver s)) (softs s ! i) then 1 else 0)"
    by (simp_all add: harden_round_def)
  from ih show ?case unfolding f by simp
qed

lemma hardenClauses_loop_maxw:
  "distinct is \<Longrightarrow> hardenClauses_loop bound is s = Inr s' \<Longrightarrow>
   maxw_nothardened s' =
     Max (insert (maxw_nothardened s)
            (weight ` set (filter (\<lambda>c. \<not> hardens_at bound (model (solver s)) c)
                            (map ((!) (softs s)) is))))"
proof (induction "is" arbitrary: s)
  case Nil
  then show ?case by simp
next
  case (Cons i "is")
  let ?H = "hardens_at bound (model (solver s))"
  let ?c = "softs s ! i"
  let ?S = "weight ` set (filter (\<lambda>c. \<not> ?H c) (map ((!) (softs s)) is))"
  from hardenClauses_loop_Cons[OF Cons.prems(2)]
  have r: "hardenClauses_loop bound is (harden_round bound i s) = Inr s'" by simp
  from Cons.prems(1) have d: "distinct is" and ni: "i \<notin> set is" by simp_all
  note ih = Cons.IH[OF d r, unfolded harden_round_frame harden_round_map_nth[OF ni]]
  have fin: "finite ?S" by simp
  show ?case
  proof (cases "?H ?c")
    case True
    then have "maxw_nothardened (harden_round bound i s) = maxw_nothardened s"
      by (simp add: harden_round_def)
    with ih True show ?thesis by simp
  next
    case False
    show ?thesis
    proof (cases "weight ?c > maxw_nothardened s")
      case gt: True
      with False have "maxw_nothardened (harden_round bound i s) = weight ?c"
        by (simp add: harden_round_def)
      with ih have "maxw_nothardened s' = Max (insert (weight ?c) ?S)" by simp
      also have "\<dots> = Max (insert (maxw_nothardened s) (insert (weight ?c) ?S))"
        using gt Max_insert_absorb[OF fin, of "maxw_nothardened s" "weight ?c"] by simp
      finally show ?thesis using False by simp
    next
      case le: False
      with False have "maxw_nothardened (harden_round bound i s) = maxw_nothardened s"
        by (simp add: harden_round_def)
      with ih have "maxw_nothardened s' = Max (insert (maxw_nothardened s) ?S)" by simp
      also have "\<dots> = Max (insert (weight ?c) (insert (maxw_nothardened s) ?S))"
        using le Max_insert_absorb[OF fin, of "weight ?c" "maxw_nothardened s"] by simp
      finally show ?thesis using False by (simp add: insert_commute)
    qed
  qed
qed


lemma hardenClauses_result:
  assumes "hardenClauses s = Inr s'"
  shows "softs_added s \<le> nSoft s"
    and "softs s' = map (\<lambda>c. if hardens s c then hardened c else c)
                      (take (softs_added s) (softs s)) @ drop (softs_added s) (softs s)"
    and "solver_clauses (solver s') = solver_clauses (solver s) @
           map unit_of (filter (hardens s) (take (softs_added s) (softs s)))"
    and "hard_clauses (maxsat_formula s') = hard_clauses (maxsat_formula s) @
           (if hardenLazily s then []
            else map unit_of (filter (hardens s) (take (softs_added s) (softs s))))"
    and "num_hardened s' = num_hardened s +
           length (filter (hardens s) (take (softs_added s) (softs s)))"
    and "maxw_nothardened s' =
           Max (insert 0 (weight ` set (filter (\<lambda>c. \<not> hardens s c)
                                         (take (softs_added s) (softs s)))))"
    and "lbCost s' = lbCost s" and "ubCost s' = ubCost s" and "known_gap s' = known_gap s"
proof -
  let ?k = "softs_added s"
  let ?s0 = "s\<lparr>maxw_nothardened := 0\<rparr>"
  have s0: "softs ?s0 = softs s" "nSoft ?s0 = nSoft s" "model (solver ?s0) = model (solver s)"
    "hardenLazily ?s0 = hardenLazily s" "maxw_nothardened ?s0 = 0"
    "solver_clauses (solver ?s0) = solver_clauses (solver s)"
    "hard_clauses (maxsat_formula ?s0) = hard_clauses (maxsat_formula s)"
    "num_hardened ?s0 = num_hardened s"
    "lbCost ?s0 = lbCost s" "ubCost ?s0 = ubCost s" "known_gap ?s0 = known_gap s"
    by (simp_all add: softs_def nSoft_def hardenLazily_def)
  have H: "hardens_at (ubCost s - lbCost s) (model (solver s)) = hardens s"
    by (simp add: hardens_def fun_eq_iff)
  from assms have run: "hardenClauses_loop (ubCost s - lbCost s) [0..<?k] ?s0 = Inr s'"
    by (simp add: hardenClauses_def)
  note fr = hardenClauses_loop_frame[OF run, unfolded s0]
  show le: "?k \<le> nSoft s"
  proof (rule ccontr)
    assume "\<not> ?k \<le> nSoft s"
    then have "nSoft s \<in> set [0..<?k]" by simp
    with fr show False by blast
  qed
  then have le': "?k \<le> length (softs s)" by (simp add: nSoft_def softs_def)
  then have tk: "map ((!) (softs s)) [0..<?k] = take ?k (softs s)"
    by (rule map_nth_upt_take)
  from fr show "lbCost s' = lbCost s" "ubCost s' = ubCost s" "known_gap s' = known_gap s"
    by simp_all
  from hardenClauses_loop_clauses[OF distinct_upt run, unfolded s0 H tk]
  show "solver_clauses (solver s') = solver_clauses (solver s) @
           map unit_of (filter (hardens s) (take ?k (softs s)))"
    and "hard_clauses (maxsat_formula s') = hard_clauses (maxsat_formula s) @
           (if hardenLazily s then []
            else map unit_of (filter (hardens s) (take ?k (softs s))))"
    and "num_hardened s' = num_hardened s + length (filter (hardens s) (take ?k (softs s)))"
    by simp_all
  from hardenClauses_loop_maxw[OF distinct_upt run, unfolded s0 H tk]
  show "maxw_nothardened s' =
           Max (insert 0 (weight ` set (filter (\<lambda>c. \<not> hardens s c) (take ?k (softs s)))))" .
  show "softs s' = map (\<lambda>c. if hardens s c then hardened c else c) (take ?k (softs s)) @
                   drop ?k (softs s)"
  proof (rule nth_equalityI)
    from fr show "length (softs s') =
        length (map (\<lambda>c. if hardens s c then hardened c else c) (take ?k (softs s)) @
                drop ?k (softs s))"
      using le' by simp
  next
    fix j assume "j < length (softs s')"
    with fr have j: "j < length (softs s)" by simp
    from hardenClauses_loop_softs[OF distinct_upt run, unfolded s0 H, OF j]
    show "softs s' ! j =
        (map (\<lambda>c. if hardens s c then hardened c else c) (take ?k (softs s)) @
         drop ?k (softs s)) ! j"
      using j le' by (simp add: nth_append)
  qed
qed

lemma sum_list_hardened:
  "sum_list (map (\<lambda>c. unat (weight c)) (map (\<lambda>c. if H c then hardened c else c) ys)) +
   sum_list (map (\<lambda>c. unat (weight c)) (filter H ys)) =
   sum_list (map (\<lambda>c. unat (weight c)) ys)"
  by (induction ys) (simp_all add: hardened_def)

lemma hardenClauses_total_weight:
  assumes "hardenClauses s = Inr s'"
  shows "total_weight s' + harden_removed s = total_weight s"
proof -
  let ?f = "\<lambda>c. unat (weight c)"
  let ?k = "softs_added s"
  have "total_weight s' + harden_removed s =
        (sum_list (map ?f (map (\<lambda>c. if hardens s c then hardened c else c) (take ?k (softs s)))) +
         sum_list (map ?f (filter (hardens s) (take ?k (softs s))))) +
        sum_list (map ?f (drop ?k (softs s)))"
    by (simp add: total_weight_def harden_removed_def hardenClauses_result(2)[OF assms])
  also have "\<dots> = sum_list (map ?f (take ?k (softs s))) + sum_list (map ?f (drop ?k (softs s)))"
    by (simp only: sum_list_hardened)
  also have "\<dots> = sum_list (map ?f (softs s))"
    by (metis append_take_drop_id map_append sum_list.append)
  finally show ?thesis by (simp only: total_weight_def)
qed

text \<open>
  C3, as the code has it: \<^verbatim>\<open>hardenClauses\<close> runs over the first \<^verbatim>\<open>softs_added\<close> soft
  clauses (those the oracle has been told of). With \<open>gap = ubCost - lbCost\<close>, such a
  clause is hardened if and only if its weight is greater than the gap, or equal to the gap
  with its literal true in the current model of the oracle (\<^verbatim>\<open>solver->model\<close>). Hardening
  adds the unit clause \<open>\<not>assumption_var\<close> to the oracle and, unless
  \<^verbatim>\<open>hardenLazily\<close> holds, to the formula store, sets the weight to 0 and the assumption to
  undefined, and counts the clause in \<^verbatim>\<open>num_hardened\<close>. Every other soft clause, also
  every one from index \<^verbatim>\<open>softs_added\<close> on, keeps its weight and assumption, and
  \<^verbatim>\<open>maxw_nothardened\<close> ends as the greatest weight among the clauses below
  \<^verbatim>\<open>softs_added\<close> that were not hardened (0 if there is none).
\<close>

theorem hardenClauses_softs_added:
  assumes "hardenClauses s = Inr s'"
  shows "softs s' = map (\<lambda>c. if hardens s c then hardened c else c)
                      (take (softs_added s) (softs s)) @ drop (softs_added s) (softs s) \<and>
         solver_clauses (solver s') = solver_clauses (solver s) @
           map unit_of (filter (hardens s) (take (softs_added s) (softs s))) \<and>
         hard_clauses (maxsat_formula s') = hard_clauses (maxsat_formula s) @
           (if hardenLazily s then []
            else map unit_of (filter (hardens s) (take (softs_added s) (softs s)))) \<and>
         num_hardened s' = num_hardened s +
           length (filter (hardens s) (take (softs_added s) (softs s))) \<and>
         maxw_nothardened s' =
           Max (insert 0 (weight ` set (filter (\<lambda>c. \<not> hardens s c)
                                         (take (softs_added s) (softs s)))))"
  using hardenClauses_result(2-6)[OF assms] by simp

text \<open>
  C3 as the claim states it fails in a state with gap 2 where the oracle has been told of
  the first of two soft clauses only: the first, of weight 2, is true in the best model but
  false in the current model of the oracle, and the second has weight 5. Neither is
  hardened, and \<^verbatim>\<open>maxw_nothardened\<close> ends as 2.
\<close>

definition harden_example :: PMRES where
  "harden_example =
     (with_softs [2, 5])
       \<lparr>softs_added := 1, ubCost := 2, lbCost := 0,
        solver := \<lparr>solver_vars = 2, solver_clauses = [], model = [l_True, l_True]\<rparr>,
        bestModel := [l_False, l_False]\<rparr>"

lemmas eval_defs =
  with_softs_def formula0_def pmres0_def nSoft_def softs_def unit_soft_def
  getMaximumWeight_def Let_def upt_2 upt_3 upt_4

theorem hardenClauses_counterexample:
  "map_sum id (\<lambda>r. map weight (softs r)) (hardenClauses harden_example) = Inr [2, 5] \<and>
   map_sum id maxw_nothardened (hardenClauses harden_example) = Inr 2 \<and>
   ubCost harden_example - lbCost harden_example = 2 \<and>
   softs harden_example = [unit_soft 0 2, unit_soft 1 5] \<and>
   litTrue (hd (clause (unit_soft 0 2))) (bestModel harden_example)"
  by (simp add: harden_example_def hardenClauses_def harden_satisfied_def litTrue_def eval_defs)

definition harden_example2 :: PMRES where
  "harden_example2 =
     (with_softs [5, 1])
       \<lparr>ubCost := 3, lbCost := 0,
        solver := \<lparr>solver_vars = 2, solver_clauses = [], model = [l_False, l_False]\<rparr>\<rparr>"

theorem hardenClauses_softs_added_witness:
  "map weight (softs (projr (hardenClauses harden_example2))) = [0, 1] \<and>
   solver_clauses (solver (projr (hardenClauses harden_example2))) = [[Lit 0 True]] \<and>
   hard_clauses (maxsat_formula (projr (hardenClauses harden_example2))) = [] \<and>
   num_hardened (projr (hardenClauses harden_example2)) = 1 \<and>
   maxw_nothardened (projr (hardenClauses harden_example2)) = 1"
proof -
  have "hardenClauses harden_example2 = Inr (projr (hardenClauses harden_example2))"
    by (simp add: harden_example2_def hardenClauses_def harden_satisfied_def litTrue_def
        solver_addClause_def addHardClause_def set_softs_def hardenLazily_def eval_defs)
  from hardenClauses_softs_added[OF this] show ?thesis
    by (simp add: harden_example2_def hardens_def hardens_at_def hardened_def unit_of_def
        hardenLazily_def litTrue_def eval_defs)
qed

section \<open>encodeMaxRes\<close>

text \<open>The fresh literals that \<^verbatim>\<open>newLiteral\<close> hands out from variable \<open>v\<close> on.\<close>

definition fresh_lits :: "nat \<Rightarrow> nat \<Rightarrow> lit list" where
  "fresh_lits v k = map (\<lambda>i. Lit (v + i) False) [0..<k]"

text \<open>The hard clauses of round \<open>i\<close> of the chain, and of the last link.\<close>

definition chain_clauses :: "int \<Rightarrow> lit list \<Rightarrow> lit list \<Rightarrow> nat \<Rightarrow> lit list list" where
  "chain_clauses mode core dVars i =
     (if mode = 0 then [[neg (dVars ! i), dVars ! (i + 1), core ! (i + 1)]] else []) @
     [[dVars ! i, neg (core ! (i + 1))], [dVars ! i, neg (dVars ! (i + 1))]]"

definition final_clauses :: "lit list \<Rightarrow> lit list \<Rightarrow> lit list list" where
  "final_clauses core dVars =
     (let n = length core in
      if n > 1 then [[dVars ! (n - 2), neg (core ! (n - 1))], [neg (dVars ! (n - 2)), core ! (n - 1)]]
      else [])"

text \<open>
  The new soft clause of round \<open>i\<close>, with its assumption literal \<open>a\<close>, and the hard clause
  that reifies it.
\<close>

definition new_soft :: "u64 \<Rightarrow> lit \<Rightarrow> Soft" where
  "new_soft w a = \<lparr>clause = [neg a], weight = w, assumption_var = Some a\<rparr>"

definition reify_clause :: "lit list \<Rightarrow> lit list \<Rightarrow> lit list \<Rightarrow> nat \<Rightarrow> lit list" where
  "reify_clause core dVars aVars i = [neg (core ! i), neg (dVars ! i), aVars ! i]"

lemma fresh_lits_Suc: "fresh_lits v (Suc k) = Lit v False # fresh_lits (Suc v) k"
proof -
  have "[0..<Suc k] = 0 # map Suc [0..<k]"
    by (simp add: upt_conv_Cons map_Suc_upt del: upt_Suc)
  then show ?thesis by (simp add: fresh_lits_def comp_def del: upt_Suc)
qed

lemma newLiterals_fresh:
  "newLiterals k s =
     (fresh_lits (n_vars (maxsat_formula s)) k,
      s\<lparr>maxsat_formula := (maxsat_formula s)\<lparr>n_vars := n_vars (maxsat_formula s) + k\<rparr>\<rparr>)"
proof (induction k arbitrary: s)
  case 0
  then show ?case by (simp add: fresh_lits_def)
next
  case (Suc k)
  show ?case
    by (simp add: newLiteral_def Suc fresh_lits_Suc)
qed

lemma encodeMaxRes_chain_eq:
  "encodeMaxRes_chain core dVars i s =
     s\<lparr>maxsat_formula := (maxsat_formula s)
         \<lparr>hard_clauses := hard_clauses (maxsat_formula s) @ chain_clauses (lins s) core dVars i\<rparr>\<rparr>"
  by (simp add: encodeMaxRes_chain_def chain_clauses_def addHardClause_def Let_def)

lemma fold_chain:
  "fold (encodeMaxRes_chain core dVars) [0..<k] s =
     s\<lparr>maxsat_formula := (maxsat_formula s)
         \<lparr>hard_clauses := hard_clauses (maxsat_formula s) @
                            concat (map (chain_clauses (lins s) core dVars) [0..<k])\<rparr>\<rparr>"
proof (induction k)
  case 0
  show ?case by simp
next
  case (Suc k)
  let ?f = "encodeMaxRes_chain core dVars"
  have "fold ?f [0..<Suc k] s = ?f k (fold ?f [0..<k] s)" by simp
  also have "\<dots> = ?f k (s\<lparr>maxsat_formula := (maxsat_formula s)
         \<lparr>hard_clauses := hard_clauses (maxsat_formula s) @
                            concat (map (chain_clauses (lins s) core dVars) [0..<k])\<rparr>\<rparr>)"
    by (simp only: Suc)
  also have "\<dots> = s\<lparr>maxsat_formula := (maxsat_formula s)
         \<lparr>hard_clauses := hard_clauses (maxsat_formula s) @
                            concat (map (chain_clauses (lins s) core dVars) [0..<Suc k])\<rparr>\<rparr>"
    by (simp add: encodeMaxRes_chain_eq)
  finally show ?case .
qed

text \<open>The core mapping after \<open>k\<close> new soft clauses from index \<open>m\<close>, on variables from \<open>v\<close>.\<close>

definition extend_mapping :: "(lit \<rightharpoonup> nat) \<Rightarrow> nat \<Rightarrow> nat \<Rightarrow> nat \<Rightarrow> (lit \<rightharpoonup> nat)" where
  "extend_mapping cm v m k =
     (\<lambda>l. if \<not> sign l \<and> v \<le> var l \<and> var l < v + k then Some (m + (var l - v)) else cm l)"

lemma extend_mapping_0: "extend_mapping cm v m 0 = cm"
  by (auto simp: extend_mapping_def fun_eq_iff)

lemma extend_mapping_Suc:
  "(extend_mapping cm v m k)(Lit (v + k) False \<mapsto> m + k) = extend_mapping cm v m (Suc k)"
proof
  fix l show "((extend_mapping cm v m k)(Lit (v + k) False \<mapsto> m + k)) l = extend_mapping cm v m (Suc k) l"
    by (cases l) (auto simp: extend_mapping_def)
qed

lemma encodeMaxRes_soft_eq:
  "encodeMaxRes_soft core dVars w i s =
     s\<lparr>maxsat_formula := (maxsat_formula s)
         \<lparr>n_vars := Suc (n_vars (maxsat_formula s)),
          hard_clauses := hard_clauses (maxsat_formula s) @
             [[neg (core ! i), neg (dVars ! i), Lit (n_vars (maxsat_formula s)) False]],
          soft_clauses := soft_clauses (maxsat_formula s) @
             [new_soft w (Lit (n_vars (maxsat_formula s)) False)]\<rparr>,
       coreMapping := (coreMapping s)(Lit (n_vars (maxsat_formula s)) False \<mapsto> nSoft s)\<rparr>"
  by (simp add: encodeMaxRes_soft_def addSoftClauseAndAssumptionVar_def newLiteral_def
      addHardClause_def addSoftClause_def set_softs_def softs_def nSoft_def new_soft_def Let_def)

lemma fold_soft:
  "fold (encodeMaxRes_soft core dVars w) [0..<k] s =
     s\<lparr>maxsat_formula := (maxsat_formula s)
         \<lparr>n_vars := n_vars (maxsat_formula s) + k,
          hard_clauses := hard_clauses (maxsat_formula s) @
             map (reify_clause core dVars (fresh_lits (n_vars (maxsat_formula s)) k)) [0..<k],
          soft_clauses := soft_clauses (maxsat_formula s) @
             map (new_soft w) (fresh_lits (n_vars (maxsat_formula s)) k)\<rparr>,
       coreMapping := extend_mapping (coreMapping s) (n_vars (maxsat_formula s)) (nSoft s) k\<rparr>"
  (is "?L k = ?R k")
proof (induction k)
  case 0
  show ?case by (simp add: fresh_lits_def extend_mapping_0)
next
  case (Suc k)
  let ?f = "encodeMaxRes_soft core dVars w"
  let ?v = "n_vars (maxsat_formula s)"
  have hR: "map (reify_clause core dVars (fresh_lits ?v (Suc k))) [0..<Suc k] =
            map (reify_clause core dVars (fresh_lits ?v k)) [0..<k] @
            [[neg (core ! k), neg (dVars ! k), Lit (?v + k) False]]"
    by (simp add: reify_clause_def fresh_lits_def nth_append)
  have sR: "map (new_soft w) (fresh_lits ?v (Suc k)) =
            map (new_soft w) (fresh_lits ?v k) @ [new_soft w (Lit (?v + k) False)]"
    by (simp add: fresh_lits_def)
  have len: "length (fresh_lits ?v k) = k" by (simp add: fresh_lits_def)
  have "?L (Suc k) = ?f k (?L k)" by simp
  also have "\<dots> = ?f k (?R k)" by (simp only: Suc)
  also have "\<dots> = ?R (Suc k)"
    unfolding hR sR extend_mapping_Suc[symmetric]
    by (simp add: encodeMaxRes_soft_eq nSoft_def len fun_upd_def del: upt_Suc)
  finally show ?case .
qed


lemma extend_mapping_fresh:
  "i < k \<Longrightarrow> extend_mapping cm v m k (fresh_lits v k ! i) = Some (m + i)"
  by (simp add: extend_mapping_def fresh_lits_def)

text \<open>The members of the solver other than the formula and the core mapping.\<close>

definition other_members :: "PMRES \<Rightarrow> PMRES" where
  "other_members s = s\<lparr>maxsat_formula := formula0, coreMapping := Map.empty\<rparr>"

lemma fold_preserves:
  "(\<And>x t. g (f x t) = g t) \<Longrightarrow> g (fold f xs s) = g s"
  by (induction xs arbitrary: s) simp_all

lemma other_members_steps:
  "other_members (addHardClause c s) = other_members s"
  "other_members (encodeMaxRes_chain core dVars i s) = other_members s"
  "other_members (encodeMaxRes_soft core dVars w i s) = other_members s"
  by (simp_all add: other_members_def addHardClause_def encodeMaxRes_chain_eq encodeMaxRes_soft_eq)

lemma other_members_fields:
  assumes "other_members s' = other_members s"
  shows "lbCost s' = lbCost s" "ubCost s' = ubCost s" "known_gap s' = known_gap s"
    "num_hardened s' = num_hardened s" "lins s' = lins s" "solver s' = solver s"
    "softs_added s' = softs_added s" "nbCores s' = nbCores s"
proof -
  have "lbCost (other_members s') = lbCost (other_members s)"
    "ubCost (other_members s') = ubCost (other_members s)"
    "known_gap (other_members s') = known_gap (other_members s)"
    "num_hardened (other_members s') = num_hardened (other_members s)"
    "lins (other_members s') = lins (other_members s)"
    "solver (other_members s') = solver (other_members s)"
    "softs_added (other_members s') = softs_added (other_members s)"
    "nbCores (other_members s') = nbCores (other_members s)"
    by (simp_all only: assms)
  then show "lbCost s' = lbCost s" "ubCost s' = ubCost s" "known_gap s' = known_gap s"
    "num_hardened s' = num_hardened s" "lins s' = lins s" "solver s' = solver s"
    "softs_added s' = softs_added s" "nbCores s' = nbCores s"
    by (simp_all add: other_members_def)
qed

lemma encodeMaxRes_result:
  assumes "core \<noteq> []"
  shows "\<exists>s'. encodeMaxRes core w s = Inr s' \<and> other_members s' = other_members s \<and>
     (let n = length core; v = n_vars (maxsat_formula s);
          dVars = fresh_lits v (n - 1); aVars = fresh_lits (v + (n - 1)) (n - 1)
      in n_vars (maxsat_formula s') = v + (n - 1) + (n - 1) \<and>
         soft_clauses (maxsat_formula s') =
           soft_clauses (maxsat_formula s) @ map (new_soft w) aVars \<and>
         hard_clauses (maxsat_formula s') =
           hard_clauses (maxsat_formula s) @
           (if lins s = 0 then [core] else []) @
           concat (map (chain_clauses (lins s) core dVars) [0..<n - 2]) @
           final_clauses core dVars @
           map (reify_clause core dVars aVars) [0..<n - 1] \<and>
         coreMapping s' = extend_mapping (coreMapping s) (v + (n - 1)) (nSoft s) (n - 1) \<and>
         (\<forall>i < n - 1. coreMapping s' (aVars ! i) = Some (nSoft s + i)))"
proof -
  define n where "n = length core"
  define v where "v = n_vars (maxsat_formula s)"
  define dVars where "dVars = fresh_lits v (n - 1)"
  define s1 where "s1 = s\<lparr>maxsat_formula := (maxsat_formula s)\<lparr>n_vars := v + (n - 1)\<rparr>\<rparr>"
  define s2 where "s2 = (if lins s1 = 0 then addHardClause core s1 else s1)"
  define s3 where "s3 = fold (encodeMaxRes_chain core dVars) [0..<n - 2] s2"
  define s4 where "s4 = s3\<lparr>maxsat_formula := (maxsat_formula s3)
        \<lparr>hard_clauses := hard_clauses (maxsat_formula s3) @ final_clauses core dVars\<rparr>\<rparr>"
  define s5 where "s5 = fold (encodeMaxRes_soft core dVars w) [0..<n - 1] s4"
  have z: "\<not> 2 < n \<Longrightarrow> [0..<n - 2] = []" by simp
  have run: "encodeMaxRes core w s = Inr s5"
    using assms
    by (auto simp: encodeMaxRes_def newLiterals_fresh Let_def s5_def s4_def s3_def s2_def s1_def
        dVars_def n_def v_def final_clauses_def addHardClause_def z)
  have f1: "lins s1 = lins s" "coreMapping s1 = coreMapping s" "nSoft s1 = nSoft s"
    "n_vars (maxsat_formula s1) = v + (n - 1)"
    "hard_clauses (maxsat_formula s1) = hard_clauses (maxsat_formula s)"
    "soft_clauses (maxsat_formula s1) = soft_clauses (maxsat_formula s)"
    by (simp_all add: s1_def nSoft_def)
  have f2: "lins s2 = lins s" "coreMapping s2 = coreMapping s" "nSoft s2 = nSoft s"
    "n_vars (maxsat_formula s2) = v + (n - 1)"
    "hard_clauses (maxsat_formula s2) =
       hard_clauses (maxsat_formula s) @ (if lins s = 0 then [core] else [])"
    "soft_clauses (maxsat_formula s2) = soft_clauses (maxsat_formula s)"
    by (simp_all add: s2_def f1 addHardClause_def nSoft_def)
  have f3: "lins s3 = lins s" "coreMapping s3 = coreMapping s" "nSoft s3 = nSoft s"
    "n_vars (maxsat_formula s3) = v + (n - 1)"
    "hard_clauses (maxsat_formula s3) =
       hard_clauses (maxsat_formula s) @ (if lins s = 0 then [core] else []) @
       concat (map (chain_clauses (lins s) core dVars) [0..<n - 2])"
    "soft_clauses (maxsat_formula s3) = soft_clauses (maxsat_formula s)"
    unfolding s3_def fold_chain by (simp_all add: f2 nSoft_def)
  have f4: "coreMapping s4 = coreMapping s" "nSoft s4 = nSoft s"
    "n_vars (maxsat_formula s4) = v + (n - 1)"
    "hard_clauses (maxsat_formula s4) =
       hard_clauses (maxsat_formula s) @ (if lins s = 0 then [core] else []) @
       concat (map (chain_clauses (lins s) core dVars) [0..<n - 2]) @ final_clauses core dVars"
    "soft_clauses (maxsat_formula s4) = soft_clauses (maxsat_formula s)"
    by (simp_all add: s4_def f3 nSoft_def)
  have f5: "n_vars (maxsat_formula s5) = v + (n - 1) + (n - 1)"
    "soft_clauses (maxsat_formula s5) =
       soft_clauses (maxsat_formula s) @ map (new_soft w) (fresh_lits (v + (n - 1)) (n - 1))"
    "hard_clauses (maxsat_formula s5) =
       hard_clauses (maxsat_formula s) @ (if lins s = 0 then [core] else []) @
       concat (map (chain_clauses (lins s) core dVars) [0..<n - 2]) @ final_clauses core dVars @
       map (reify_clause core dVars (fresh_lits (v + (n - 1)) (n - 1))) [0..<n - 1]"
    "coreMapping s5 = extend_mapping (coreMapping s) (v + (n - 1)) (nSoft s) (n - 1)"
    unfolding s5_def fold_soft by (simp_all add: f4)
  have o1: "other_members s1 = other_members s"
    by (simp add: s1_def other_members_def)
  have o2: "other_members s2 = other_members s1"
    by (simp add: s2_def other_members_steps)
  have o3: "other_members s3 = other_members s2"
    unfolding s3_def by (rule fold_preserves) (rule other_members_steps)
  have o4: "other_members s4 = other_members s3"
    by (simp add: s4_def other_members_def)
  have o5: "other_members s5 = other_members s4"
    unfolding s5_def by (rule fold_preserves) (rule other_members_steps)
  have o: "other_members s5 = other_members s"
    by (simp only: o1 o2 o3 o4 o5)
  have q: "\<forall>i < n - 1. coreMapping s5 (fresh_lits (v + (n - 1)) (n - 1) ! i) = Some (nSoft s + i)"
    by (simp add: f5 extend_mapping_fresh)
  show ?thesis
    unfolding Let_def n_def[symmetric] v_def[symmetric] dVars_def[symmetric]
    using run f5 q o by blast
qed


text \<open>
  C2: for every non-empty core \<open>b\<^sub>0 \<dots> b\<^sub>n\<^sub>-\<^sub>1\<close> and weight \<open>w\<close>,
  \<^verbatim>\<open>encodeMaxRes\<close> returns and
  \<^item> takes \<open>n - 1\<close> fresh variables for the literals \<open>d\<^sub>i\<close> and then \<open>n - 1\<close> more
    for the assumption literals \<open>a\<^sub>i\<close>;
  \<^item> appends exactly \<open>n - 1\<close> soft clauses, the units \<open>\<not>a\<^sub>i\<close> of weight \<open>w\<close> with
    assumption literal \<open>a\<^sub>i\<close>, and registers \<open>coreMapping[a\<^sub>i]\<close> as the index of the
    \<open>i\<close>-th new soft clause;
  \<^item> appends the hard clauses, in this order: the core itself (only if \<open>lins = 0\<close>); for
    \<open>i < n - 2\<close> the clause \<open>\<not>d\<^sub>i \<or> d\<^sub>i\<^sub>+\<^sub>1 \<or> b\<^sub>i\<^sub>+\<^sub>1\<close> (only if \<open>lins = 0\<close>) and the clauses
    \<open>d\<^sub>i \<or> \<not>b\<^sub>i\<^sub>+\<^sub>1\<close> and \<open>d\<^sub>i \<or> \<not>d\<^sub>i\<^sub>+\<^sub>1\<close> (in every mode); for \<open>n > 1\<close> the two final
    clauses \<open>d\<^sub>n\<^sub>-\<^sub>2 \<or> \<not>b\<^sub>n\<^sub>-\<^sub>1\<close> and \<open>\<not>d\<^sub>n\<^sub>-\<^sub>2 \<or> b\<^sub>n\<^sub>-\<^sub>1\<close> (in every mode); and for
    \<open>i < n - 1\<close> the clause \<open>\<not>b\<^sub>i \<or> \<not>d\<^sub>i \<or> a\<^sub>i\<close> that reifies the \<open>i\<close>-th new soft clause.
\<close>

theorem encodeMaxRes_transformation:
  assumes "core \<noteq> []"
  shows "\<exists>s'. encodeMaxRes core w s = Inr s' \<and>
     (let n = length core; v = n_vars (maxsat_formula s);
          dVars = fresh_lits v (n - 1); aVars = fresh_lits (v + (n - 1)) (n - 1)
      in n_vars (maxsat_formula s') = v + (n - 1) + (n - 1) \<and>
         soft_clauses (maxsat_formula s') =
           soft_clauses (maxsat_formula s) @ map (new_soft w) aVars \<and>
         hard_clauses (maxsat_formula s') =
           hard_clauses (maxsat_formula s) @
           (if lins s = 0 then [core] else []) @
           concat (map (chain_clauses (lins s) core dVars) [0..<n - 2]) @
           final_clauses core dVars @
           map (reify_clause core dVars aVars) [0..<n - 1] \<and>
         coreMapping s' = extend_mapping (coreMapping s) (v + (n - 1)) (nSoft s) (n - 1) \<and>
         (\<forall>i < n - 1. coreMapping s' (aVars ! i) = Some (nSoft s + i)))"
  using encodeMaxRes_result[OF assms, of w s] by blast

theorem encodeMaxRes_transformation_witness:
  "hard_clauses (maxsat_formula
     (projr (encodeMaxRes [Lit 0 False, Lit 1 False, Lit 2 False] 4 (with_softs [4, 4, 4])))) =
     [[Lit 0 False, Lit 1 False, Lit 2 False],
      [Lit 3 True, Lit 4 False, Lit 1 False], [Lit 3 False, Lit 1 True], [Lit 3 False, Lit 4 True],
      [Lit 4 False, Lit 2 True], [Lit 4 True, Lit 2 False],
      [Lit 0 True, Lit 3 True, Lit 5 False], [Lit 1 True, Lit 4 True, Lit 6 False]] \<and>
   drop 3 (soft_clauses (maxsat_formula
     (projr (encodeMaxRes [Lit 0 False, Lit 1 False, Lit 2 False] 4 (with_softs [4, 4, 4]))))) =
     [new_soft 4 (Lit 5 False), new_soft 4 (Lit 6 False)] \<and>
   coreMapping (projr (encodeMaxRes [Lit 0 False, Lit 1 False, Lit 2 False] 4 (with_softs [4, 4, 4])))
     (Lit 6 False) = Some 4"
proof -
  let ?core = "[Lit 0 False, Lit 1 False, Lit 2 False]"
  have ne: "?core \<noteq> []" by simp
  have v: "n_vars (maxsat_formula (with_softs [4, 4, 4])) = 3"
    "lins (with_softs [4, 4, 4]) = 0" "hard_clauses (maxsat_formula (with_softs [4, 4, 4])) = []"
    "length (soft_clauses (maxsat_formula (with_softs [4, 4, 4]))) = 3"
    "nSoft (with_softs [4, 4, 4]) = 3"
    by (simp_all add: with_softs_def formula0_def pmres0_def nSoft_def)
  have len: "length ?core = 3" by simp
  have ar: "3 - 1 = (2::nat)" "3 - 2 = (1::nat)" "3 + 2 = (5::nat)" "[0..<1] = [0]"
    by simp_all
  have fl: "fresh_lits 3 2 = [Lit 3 False, Lit 4 False]"
    "fresh_lits 5 2 = [Lit 5 False, Lit 6 False]"
    by (simp_all add: fresh_lits_def upt_2)
  note th = encodeMaxRes_transformation[OF ne, of 4 "with_softs [4, 4, 4]",
      unfolded Let_def len v ar fl]
  then obtain s' where r: "encodeMaxRes ?core 4 (with_softs [4, 4, 4]) = Inr s'"
    and h: "hard_clauses (maxsat_formula s') =
       [] @ (if (0::int) = 0 then [?core] else []) @
       concat (map (chain_clauses 0 ?core [Lit 3 False, Lit 4 False]) [0]) @
       final_clauses ?core [Lit 3 False, Lit 4 False] @
       map (reify_clause ?core [Lit 3 False, Lit 4 False] [Lit 5 False, Lit 6 False]) [0..<2]"
    and sc: "soft_clauses (maxsat_formula s') =
       soft_clauses (maxsat_formula (with_softs [4, 4, 4])) @
       map (new_soft 4) [Lit 5 False, Lit 6 False]"
    and cm: "\<forall>i<2. coreMapping s' ([Lit 5 False, Lit 6 False] ! i) = Some (3 + i)"
    by blast
  have "(1::nat) < 2" by simp
  with cm have "coreMapping s' ([Lit 5 False, Lit 6 False] ! 1) = Some (3 + 1)" by blast
  then have cm': "coreMapping s' (Lit 6 False) = Some 4" by simp
  from h have h': "hard_clauses (maxsat_formula s') =
      [[Lit 0 False, Lit 1 False, Lit 2 False],
      [Lit 3 True, Lit 4 False, Lit 1 False], [Lit 3 False, Lit 1 True], [Lit 3 False, Lit 4 True],
      [Lit 4 False, Lit 2 True], [Lit 4 True, Lit 2 False],
      [Lit 0 True, Lit 3 True, Lit 5 False], [Lit 1 True, Lit 4 True, Lit 6 False]]"
    by (simp add: chain_clauses_def final_clauses_def reify_clause_def upt_2)
  from r h' sc cm' show ?thesis by (simp add: v)
qed

section \<open>relaxCore\<close>

text \<open>
  The state after one round of the loop of \<^verbatim>\<open>relaxCore\<close> on the soft clause \<open>i\<close>, when the
  round raises no error.
\<close>

definition relax_round :: "u64 \<Rightarrow> nat \<Rightarrow> PMRES \<Rightarrow> PMRES" where
  "relax_round w i s =
     (if weight (softs s ! i) - w = 0
      then s\<lparr>maxsat_formula := (maxsat_formula s)
               \<lparr>soft_clauses := (softs s)[i := (softs s ! i)\<lparr>weight := 0, assumption_var := None\<rparr>]\<rparr>,
             num_hardened := Suc (num_hardened s)\<rparr>
      else s\<lparr>maxsat_formula := (maxsat_formula s)
               \<lparr>soft_clauses := (softs s)[i := (softs s ! i)\<lparr>weight := weight (softs s ! i) - w\<rparr>]\<rparr>\<rparr>)"

lemma relaxCore_loop_Cons:
  "relaxCore_loop (l # ls) w s =
     (if coreIndex s l \<ge> nSoft s then Inl OutOfBounds
      else if \<not> w \<le> weight (softs s ! coreIndex s l) then Inl AssertionFailed
      else relaxCore_loop ls w (relax_round w (coreIndex s l) s))"
  by (simp add: relax_round_def Let_def set_softs_def softs_def)

lemma relax_round_frame:
  "coreIndex (relax_round w i s) = coreIndex s"
  "nSoft (relax_round w i s) = nSoft s"
  "length (softs (relax_round w i s)) = length (softs s)"
  "lbCost (relax_round w i s) = lbCost s"
  "ubCost (relax_round w i s) = ubCost s"
  "known_gap (relax_round w i s) = known_gap s"
  "lins (relax_round w i s) = lins s"
  "n_vars (maxsat_formula (relax_round w i s)) = n_vars (maxsat_formula s)"
  "hard_clauses (maxsat_formula (relax_round w i s)) = hard_clauses (maxsat_formula s)"
  "problem_type (maxsat_formula (relax_round w i s)) = problem_type (maxsat_formula s)"
  by (simp_all add: relax_round_def coreIndex_def nSoft_def softs_def fun_eq_iff)

lemma relax_round_nth:
  "j \<noteq> i \<Longrightarrow> softs (relax_round w i s) ! j = softs s ! j"
  by (simp add: relax_round_def softs_def)

lemma relax_round_nth_same:
  "i < length (softs s) \<Longrightarrow>
   weight (softs (relax_round w i s) ! i) = weight (softs s ! i) - w \<and>
   assumption_var (softs (relax_round w i s) ! i) =
     (if weight (softs s ! i) = w then None else assumption_var (softs s ! i)) \<and>
   clause (softs (relax_round w i s) ! i) = clause (softs s ! i)"
  by (simp add: relax_round_def softs_def)

lemma relax_round_num_hardened:
  "num_hardened (relax_round w i s) =
     num_hardened s + (if weight (softs s ! i) = w then 1 else 0)"
  by (simp add: relax_round_def)

lemma relax_round_total_weight:
  assumes "i < length (softs s)" and "w \<le> weight (softs s ! i)"
  shows "total_weight (relax_round w i s) + unat w = total_weight s"
proof -
  let ?f = "\<lambda>c. unat (weight c)"
  have sub: "unat (weight (softs s ! i) - w) = unat (weight (softs s ! i)) - unat w"
    using assms(2) by (simp add: unat_sub)
  have le: "unat w \<le> unat (weight (softs s ! i))"
    using assms(2) by (simp add: word_le_nat_alt)
  have i': "i < length (map ?f (softs s))" using assms(1) by simp
  have "map ?f (softs (relax_round w i s)) = (map ?f (softs s))[i := ?f (softs s ! i) - unat w]"
    using sub by (simp add: relax_round_def softs_def map_update)
  then have "total_weight (relax_round w i s) =
             sum_list (map ?f (softs s)) + (?f (softs s ! i) - unat w) - (map ?f (softs s)) ! i"
    unfolding total_weight_def using i' by (simp only: sum_list_update)
  also have "(map ?f (softs s)) ! i = ?f (softs s ! i)" using assms(1) by simp
  finally have "total_weight (relax_round w i s) + unat w =
        sum_list (map ?f (softs s)) + (?f (softs s ! i) - unat w) - ?f (softs s ! i) + unat w"
    by simp
  moreover have "?f (softs s ! i) \<le> sum_list (map ?f (softs s))"
    using assms(1) by (simp add: member_le_sum_list)
  ultimately show ?thesis using le by (simp add: total_weight_def)
qed

lemma relaxCore_loop_total_weight:
  "relaxCore_loop ls w s = Inr s' \<Longrightarrow>
   total_weight s' + length ls * unat w = total_weight s \<and>
   length (softs s') = length (softs s) \<and> coreIndex s' = coreIndex s \<and>
   lbCost s' = lbCost s \<and> ubCost s' = ubCost s \<and> known_gap s' = known_gap s \<and>
   lins s' = lins s"
proof (induction ls arbitrary: s)
  case Nil
  then show ?case by simp
next
  case (Cons l ls)
  let ?i = "coreIndex s l"
  from Cons.prems[unfolded relaxCore_loop_Cons]
  have i: "?i < nSoft s" and w: "w \<le> weight (softs s ! ?i)"
    and r: "relaxCore_loop ls w (relax_round w ?i s) = Inr s'"
    by (simp_all split: if_splits)
  from i have i': "?i < length (softs s)" by (simp add: nSoft_def softs_def)
  from Cons.IH[OF r] relax_round_total_weight[OF i' w] show ?case
    by (simp add: relax_round_frame)
qed


lemma sum_list_new_soft:
  "sum_list (map (\<lambda>c. unat (weight c)) (map (new_soft w) xs)) = length xs * unat w"
  by (induction xs) (simp_all add: new_soft_def)

lemma encodeMaxRes_appends:
  assumes "core \<noteq> []"
  shows "\<exists>s'. encodeMaxRes core w s = Inr s' \<and> other_members s' = other_members s \<and>
           (\<exists>new. softs s' = softs s @ new \<and> length new = length core - 1 \<and>
                  sum_list (map (\<lambda>c. unat (weight c)) new) = (length core - 1) * unat w)"
proof -
  from encodeMaxRes_result[OF assms, of w s]
  obtain s' where r: "encodeMaxRes core w s = Inr s'" and o: "other_members s' = other_members s"
    and sc: "soft_clauses (maxsat_formula s') = soft_clauses (maxsat_formula s) @
       map (new_soft w) (fresh_lits (n_vars (maxsat_formula s) + (length core - 1)) (length core - 1))"
    unfolding Let_def by blast
  let ?new = "map (new_soft w) (fresh_lits (n_vars (maxsat_formula s) + (length core - 1)) (length core - 1))"
  have "softs s' = softs s @ ?new" using sc by (simp add: softs_def)
  moreover have "length ?new = length core - 1" by (simp add: fresh_lits_def)
  moreover have "sum_list (map (\<lambda>c. unat (weight c)) ?new) = (length core - 1) * unat w"
    by (simp only: sum_list_new_soft) (simp add: fresh_lits_def)
  ultimately show ?thesis using r o by blast
qed

lemma relaxCore_InrD:
  assumes "relaxCore conflict w s = Inr s'"
  shows "conflict \<noteq> [] \<and> 0 < w \<and>
         (\<exists>s1 s2. relaxCore_loop conflict w s = Inr s1 \<and> encodeMaxRes conflict w s1 = Inr s2 \<and>
                  s' = s2\<lparr>sumSizeCores := sumSizeCores s2 + length conflict\<rparr>)"
proof -
  from assms have ne: "conflict \<noteq> []" and w: "0 < w"
    by (simp_all add: relaxCore_def split: if_splits)
  show ?thesis
  proof (cases "relaxCore_loop conflict w s")
    case (Inl e)
    with assms ne w show ?thesis by (simp add: relaxCore_def)
  next
    case (Inr s1)
    show ?thesis
    proof (cases "encodeMaxRes conflict w s1")
      case (Inl e)
      with assms ne w Inr show ?thesis by (simp add: relaxCore_def)
    next
      case s2: (Inr s2)
      with assms ne w Inr have "s' = s2\<lparr>sumSizeCores := sumSizeCores s2 + length conflict\<rparr>"
        by (simp add: relaxCore_def)
      with ne w Inr s2 show ?thesis by blast
    qed
  qed
qed

lemma relaxCore_total_weight:
  assumes "relaxCore conflict w s = Inr s'"
  shows "total_weight s' + unat w = total_weight s"
    and "length (softs s') = length (softs s) + (length conflict - 1)"
    and "lbCost s' = lbCost s" and "ubCost s' = ubCost s" and "known_gap s' = known_gap s"
proof -
  from relaxCore_InrD[OF assms] obtain s1 s2 where ne: "conflict \<noteq> []"
    and l: "relaxCore_loop conflict w s = Inr s1"
    and e: "encodeMaxRes conflict w s1 = Inr s2"
    and s': "s' = s2\<lparr>sumSizeCores := sumSizeCores s2 + length conflict\<rparr>"
    by blast
  note L = relaxCore_loop_total_weight[OF l]
  from encodeMaxRes_appends[OF ne, of w s1] e
  obtain new where o: "other_members s2 = other_members s1"
    and sc: "softs s2 = softs s1 @ new" and len: "length new = length conflict - 1"
    and sm: "sum_list (map (\<lambda>c. unat (weight c)) new) = (length conflict - 1) * unat w"
    by auto
  have f: "softs s' = softs s2" "lbCost s' = lbCost s2" "ubCost s' = ubCost s2"
    "known_gap s' = known_gap s2"
    by (simp_all add: s' softs_def)
  have t2: "total_weight s2 = total_weight s1 + (length conflict - 1) * unat w"
    by (simp add: total_weight_def sc sm)
  from ne have "length conflict = Suc (length conflict - 1)" by (cases conflict) simp_all
  then have "length conflict * unat w = (length conflict - 1) * unat w + unat w"
    by (metis mult_Suc add.commute)
  with L t2 show "total_weight s' + unat w = total_weight s"
    by (simp add: total_weight_def f)
  from L sc len show "length (softs s') = length (softs s) + (length conflict - 1)"
    by (simp add: f)
  from L other_members_fields[OF o] show "lbCost s' = lbCost s" "ubCost s' = ubCost s"
    "known_gap s' = known_gap s"
    by (simp_all add: f)
qed

lemma computeCostCore_loop_cong:
  "coreMapping s1 = coreMapping s \<Longrightarrow> maxsat_formula s1 = maxsat_formula s \<Longrightarrow>
   computeCostCore_loop s1 ls c = computeCostCore_loop s ls c"
  by (induction ls arbitrary: c) (simp_all add: coreIndex_def nSoft_def softs_def Let_def)

lemma computeCostCore_cong:
  "coreMapping s1 = coreMapping s \<Longrightarrow> maxsat_formula s1 = maxsat_formula s \<Longrightarrow>
   computeCostCore conflict s1 = computeCostCore conflict s"
  using computeCostCore_loop_cong[of s1 s conflict "- 1"] by (simp add: computeCostCore_def)

lemma checkGap_fields:
  "lbCost (checkGap s) = lbCost s" "ubCost (checkGap s) = ubCost s"
  "known_gap (checkGap s) \<le> known_gap s" "softs (checkGap s) = softs s"
  "total_weight (checkGap s) = total_weight s"
  by (auto simp: checkGap_def Let_def softs_def total_weight_def)

lemma coreStep_result:
  assumes "coreStep conflict s = Inr s'"
  shows "\<exists>w. computeCostCore conflict s = Inr w \<and> lbCost s' = lbCost s + w \<and>
             total_weight s' + unat w = total_weight s"
    and "ubCost s' = ubCost s" and "known_gap s' \<le> known_gap s"
proof -
  let ?s1 = "s\<lparr>nbCores := Suc (nbCores s)\<rparr>"
  have cc: "computeCostCore conflict ?s1 = computeCostCore conflict s"
    by (rule computeCostCore_cong) simp_all
  from assms have ne: "length conflict > 0" by (simp add: coreStep_def Let_def split: if_splits)
  obtain w where w: "computeCostCore conflict s = Inr w"
    and r: "relaxCore conflict w (checkGap (?s1\<lparr>lbCost := lbCost ?s1 + w\<rparr>)) = Inr s'"
  proof (cases "computeCostCore conflict s")
    case (Inl e)
    with assms ne show ?thesis by (simp add: coreStep_def Let_def cc)
  next
    case (Inr w)
    with assms ne have "relaxCore conflict w (checkGap (?s1\<lparr>lbCost := lbCost ?s1 + w\<rparr>)) = Inr s'"
      by (simp add: coreStep_def Let_def cc)
    with Inr that show ?thesis by blast
  qed
  let ?s2 = "?s1\<lparr>lbCost := lbCost ?s1 + w\<rparr>"
  note R = relaxCore_total_weight[OF r]
  have t: "total_weight (checkGap ?s2) = total_weight s"
    by (simp add: checkGap_fields) (simp add: total_weight_def softs_def)
  from R(1) t have "total_weight s' + unat w = total_weight s" by simp
  moreover from R(3) have "lbCost s' = lbCost s + w" by (simp add: checkGap_fields)
  ultimately show "\<exists>w. computeCostCore conflict s = Inr w \<and> lbCost s' = lbCost s + w \<and>
             total_weight s' + unat w = total_weight s"
    using w by blast
  from R(4) show "ubCost s' = ubCost s" by (simp add: checkGap_fields)
  have "known_gap (checkGap ?s2) \<le> known_gap ?s2" by (rule checkGap_fields)
  with R(5) show "known_gap s' \<le> known_gap s" by simp
qed


text \<open>
  The data-model invariants on the soft clauses that the relaxation relies on: the core
  mapping registers the assumption literal of every soft clause at the index of the
  clause, and a soft clause that has an assumption literal has a positive weight.
\<close>

definition assumption_registered :: "PMRES \<Rightarrow> bool" where
  "assumption_registered s =
     (\<forall>j < nSoft s. \<forall>l. assumption_var (softs s ! j) = Some l \<longrightarrow> coreIndex s l = j)"

definition active_positive :: "PMRES \<Rightarrow> bool" where
  "active_positive s =
     (\<forall>j < nSoft s. assumption_var (softs s ! j) \<noteq> None \<longrightarrow> 0 < weight (softs s ! j))"

text \<open>
  A conflict of the oracle: a non-empty list of distinct literals, each the assumption
  literal of a soft clause (the oracle returns negations of assumptions it was passed, and
  \<^verbatim>\<open>setAssumptions\<close> passes negated assumption literals of soft clauses).
\<close>

definition is_conflict :: "PMRES \<Rightarrow> lit list \<Rightarrow> bool" where
  "is_conflict s conflict =
     (conflict \<noteq> [] \<and> distinct conflict \<and>
      (\<forall>l \<in> set conflict. \<exists>j < nSoft s. assumption_var (softs s ! j) = Some l))"

lemma neg_inj: "neg l = neg l' \<Longrightarrow> l = l'"
  by (cases l; cases l') auto

lemma setAssumptions_loop_defined:
  "setAssumptions_loop is s = Inr s' \<Longrightarrow>
   \<forall>i \<in> set is. selected s (softs s ! i) \<longrightarrow> assumption_var (softs s ! i) \<noteq> None"
proof (induction "is" arbitrary: s)
  case Nil
  then show ?case by simp
next
  case (Cons i "is")
  from Cons.prems have i: "i < nSoft s" by (simp split: if_splits)
  let ?c = "softs s ! i"
  from Cons.prems i obtain b where b: "shouldAdd s ?c = Inr b"
    by (auto simp: Let_def split: if_splits sum.splits)
  then have sel: "b = selected s ?c" by (rule shouldAdd_selected)
  show ?case
  proof (cases b)
    case True
    with Cons.prems i b obtain l where l: "assumption_var ?c = Some l"
      by (auto simp: Let_def split: if_splits option.splits)
    let ?s1 = "s\<lparr>assumptions := assumptions s @ [neg l],
                  nbCurrentSoft := Suc (nbCurrentSoft s)\<rparr>"
    from Cons.prems i b True l have "setAssumptions_loop is ?s1 = Inr s'"
      by (auto simp: Let_def split: if_splits)
    from Cons.IH[OF this]
    have "\<forall>i \<in> set is. selected ?s1 (softs ?s1 ! i) \<longrightarrow> assumption_var (softs ?s1 ! i) \<noteq> None" .
    moreover have "selected ?s1 = selected s" "softs ?s1 = softs s"
      by (simp_all add: selected_def softs_def getMaximumWeight_def fun_eq_iff)
    ultimately show ?thesis using l by simp
  next
    case False
    with Cons.prems i b have "setAssumptions_loop is s = Inr s'"
      by (auto simp: Let_def split: if_splits)
    from Cons.IH[OF this] show ?thesis using sel False by simp
  qed
qed

text \<open>
  The conflicts that the core-guided loop passes on are of this kind: after
  \<^verbatim>\<open>setAssumptions\<close>, any non-empty list of distinct literals whose negations are among
  the assumptions is a conflict in the sense above.
\<close>

lemma conflict_of_assumptions:
  assumes run: "setAssumptions s0 = Inr s"
    and ne: "conflict \<noteq> []" and d: "distinct conflict"
    and sub: "\<forall>l \<in> set conflict. neg l \<in> set (assumptions s)"
  shows "is_conflict s conflict"
proof -
  let ?k = "softs_added s0"
  let ?s0 = "s0\<lparr>nbCurrentSoft := 0, assumptions := []\<rparr>"
  have eqs: "selected ?s0 = selected s0" "softs ?s0 = softs s0" "nSoft ?s0 = nSoft s0"
    by (simp_all add: selected_def softs_def nSoft_def getMaximumWeight_def fun_eq_iff)
  from run have loop: "setAssumptions_loop [0..<?k] ?s0 = Inr s"
    by (simp add: setAssumptions_def)
  note R = setAssumptions_loop_result[OF loop, unfolded eqs]
  note D = setAssumptions_loop_defined[OF loop, unfolded eqs]
  from R have sf: "softs s = softs s0" "nSoft s = nSoft s0"
    and as: "assumptions s =
               assumption_lits (filter (selected s0) (map ((!) (softs s0)) [0..<?k]))"
    and rng: "\<forall>i \<in> set [0..<?k]. i < nSoft s0"
    by (auto simp: softs_def nSoft_def)
  have "\<exists>j < nSoft s. assumption_var (softs s ! j) = Some l" if l: "l \<in> set conflict" for l
  proof -
    from sub l have "neg l \<in> set (assumptions s)" by blast
    then obtain i where i: "i \<in> set [0..<?k]" and sel: "selected s0 (softs s0 ! i)"
      and n: "neg l = neg (the (assumption_var (softs s0 ! i)))"
      unfolding as assumption_lits_def by auto
    from D i sel obtain l' where l': "assumption_var (softs s0 ! i) = Some l'" by blast
    with n have "l = l'" by (simp add: neg_inj)
    with l' rng i show ?thesis by (intro exI[of _ i]) (simp add: sf)
  qed
  with ne d show ?thesis unfolding is_conflict_def by blast
qed

lemma relaxCore_loop_succeeds:
  assumes "distinct (map (coreIndex s) ls)"
    and "\<forall>l \<in> set ls. coreIndex s l < nSoft s \<and> w \<le> weight (softs s ! coreIndex s l)"
  shows "\<exists>s'. relaxCore_loop ls w s = Inr s' \<and>
     (\<forall>j < nSoft s.
        weight (softs s' ! j) =
          (if j \<in> coreIndex s ` set ls then weight (softs s ! j) - w else weight (softs s ! j)) \<and>
        assumption_var (softs s' ! j) =
          (if j \<in> coreIndex s ` set ls \<and> weight (softs s ! j) = w then None
           else assumption_var (softs s ! j)) \<and>
        clause (softs s' ! j) = clause (softs s ! j)) \<and>
     num_hardened s' =
       num_hardened s + length (filter (\<lambda>l. weight (softs s ! coreIndex s l) = w) ls)"
  using assms
proof (induction ls arbitrary: s)
  case Nil
  then show ?case by simp
next
  case (Cons l ls)
  let ?i = "coreIndex s l"
  let ?s1 = "relax_round w ?i s"
  from Cons.prems have i: "?i < nSoft s" and w: "w \<le> weight (softs s ! ?i)"
    and ni: "?i \<notin> coreIndex s ` set ls" and d: "distinct (map (coreIndex s) ls)"
    by simp_all
  from i have i': "?i < length (softs s)" by (simp add: nSoft_def softs_def)
  have same: "softs ?s1 ! coreIndex s l' = softs s ! coreIndex s l'" if "l' \<in> set ls" for l'
  proof -
    from that ni have "coreIndex s l' \<noteq> ?i" by (metis imageI)
    then show ?thesis by (rule relax_round_nth)
  qed
  have p1: "distinct (map (coreIndex ?s1) ls)" using d by (simp add: relax_round_frame)
  have p2: "\<forall>l' \<in> set ls. coreIndex ?s1 l' < nSoft ?s1 \<and> w \<le> weight (softs ?s1 ! coreIndex ?s1 l')"
    using Cons.prems(2) same by (simp add: relax_round_frame)
  from Cons.IH[OF p1 p2] obtain s' where r: "relaxCore_loop ls w ?s1 = Inr s'"
    and pt: "\<forall>j < nSoft s.
        weight (softs s' ! j) =
          (if j \<in> coreIndex s ` set ls then weight (softs ?s1 ! j) - w else weight (softs ?s1 ! j)) \<and>
        assumption_var (softs s' ! j) =
          (if j \<in> coreIndex s ` set ls \<and> weight (softs ?s1 ! j) = w then None
           else assumption_var (softs ?s1 ! j)) \<and>
        clause (softs s' ! j) = clause (softs ?s1 ! j)"
    and nh: "num_hardened s' =
       num_hardened ?s1 + length (filter (\<lambda>l. weight (softs ?s1 ! coreIndex s l) = w) ls)"
    unfolding relax_round_frame by blast
  have run: "relaxCore_loop (l # ls) w s = Inr s'"
    using i w r by (simp only: relaxCore_loop_Cons) simp
  have flt: "filter (\<lambda>l. weight (softs ?s1 ! coreIndex s l) = w) ls =
             filter (\<lambda>l. weight (softs s ! coreIndex s l) = w) ls"
    by (rule filter_cong[OF refl]) (simp add: same)
  have nh': "num_hardened s' =
       num_hardened s + length (filter (\<lambda>l. weight (softs s ! coreIndex s l) = w) (l # ls))"
    using nh by (simp add: flt relax_round_num_hardened)
  have pt': "weight (softs s' ! j) =
          (if j \<in> coreIndex s ` set (l # ls) then weight (softs s ! j) - w else weight (softs s ! j)) \<and>
        assumption_var (softs s' ! j) =
          (if j \<in> coreIndex s ` set (l # ls) \<and> weight (softs s ! j) = w then None
           else assumption_var (softs s ! j)) \<and>
        clause (softs s' ! j) = clause (softs s ! j)" if j: "j < nSoft s" for j
  proof (cases "j = ?i")
    case True
    with pt j ni relax_round_nth_same[OF i', of w] show ?thesis by simp
  next
    case False
    then have "softs ?s1 ! j = softs s ! j" by (rule relax_round_nth)
    with pt j False show ?thesis by auto
  qed
  from run pt' nh' show ?case by blast
qed


lemma word_pos_ge_1: "0 < (x::u64) \<Longrightarrow> 1 \<le> x"
  by (simp add: word_le_nat_alt word_less_nat_alt)

lemma is_conflict_index:
  assumes "is_conflict s conflict" and "assumption_registered s" and "l \<in> set conflict"
  shows "coreIndex s l < nSoft s \<and> assumption_var (softs s ! coreIndex s l) = Some l"
proof -
  from assms(1,3) obtain j where "j < nSoft s" "assumption_var (softs s ! j) = Some l"
    unfolding is_conflict_def by blast
  moreover with assms(2) have "coreIndex s l = j" unfolding assumption_registered_def by blast
  ultimately show ?thesis by simp
qed

lemma is_conflict_distinct:
  assumes "is_conflict s conflict" and "assumption_registered s"
  shows "distinct (map (coreIndex s) conflict)"
proof -
  have "inj_on (coreIndex s) (set conflict)"
  proof (rule inj_onI)
    fix l l' assume l: "l \<in> set conflict" and l': "l' \<in> set conflict"
      and e: "coreIndex s l = coreIndex s l'"
    from is_conflict_index[OF assms l] have "assumption_var (softs s ! coreIndex s l) = Some l"
      by simp
    moreover from is_conflict_index[OF assms l']
    have "assumption_var (softs s ! coreIndex s l') = Some l'" by simp
    ultimately show "l = l'" using e by (metis option.inject)
  qed
  moreover from assms(1) have "distinct conflict" by (simp add: is_conflict_def)
  ultimately show ?thesis by (simp add: distinct_map)
qed

lemma is_conflict_cost:
  assumes c: "is_conflict s conflict" and reg: "assumption_registered s"
    and pos: "active_positive s"
  shows "\<exists>w. computeCostCore conflict s = Inr w \<and> 0 < w \<and>
             (\<forall>l \<in> set conflict. w \<le> weight (softs s ! coreIndex s l))"
proof -
  let ?W = "\<lambda>l. weight (softs s ! coreIndex s l)"
  from c have ne: "conflict \<noteq> []" by (simp add: is_conflict_def)
  have idx: "\<forall>l \<in> set conflict. coreIndex s l < nSoft s"
    using is_conflict_index[OF c reg] by blast
  have p: "0 < ?W l" if "l \<in> set conflict" for l
    using is_conflict_index[OF c reg that] pos unfolding active_positive_def by simp
  show ?thesis
  proof (cases "problem_type (maxsat_formula s) = UNWEIGHTED")
    case True
    then have "computeCostCore conflict s = Inr 1" using ne by (simp add: computeCostCore_def)
    moreover have "\<forall>l \<in> set conflict. 1 \<le> ?W l" using p word_pos_ge_1 by blast
    ultimately show ?thesis by simp
  next
    case False
    from computeCostCore_weighted[OF ne False idx]
    have w: "computeCostCore conflict s = Inr (Min (?W ` set conflict))" .
    have fin: "finite (?W ` set conflict)" and nemp: "?W ` set conflict \<noteq> {}"
      using ne by simp_all
    from Min_in[OF fin nemp] obtain l where "l \<in> set conflict" "Min (?W ` set conflict) = ?W l"
      by auto
    with p have "0 < Min (?W ` set conflict)" by simp
    moreover have "\<forall>l \<in> set conflict. Min (?W ` set conflict) \<le> ?W l"
      using fin by simp
    ultimately show ?thesis using w by blast
  qed
qed

lemma word_sub_eq_0: "((x::u64) - w = 0) = (x = w)"
  by simp

text \<open>
  C10: when \<^verbatim>\<open>relaxCore\<close> is called with a conflict of the oracle (non-empty, its
  literals distinct assumption literals of soft clauses) and with
  \<open>weightCore = computeCostCore(conflict)\<close>, in a state where the core mapping registers
  every assumption literal at the index of its clause and every soft clause with an
  assumption literal has a positive weight, then
  \<^item> \<^verbatim>\<open>computeCostCore\<close> and \<^verbatim>\<open>relaxCore\<close> return (no assertion fails, no read is out
    of range);
  \<^item> every soft clause indexed through \<^verbatim>\<open>coreMapping\<close> by a literal of the conflict has
    weight at least \<open>weightCore\<close>, and its new weight is the old one minus \<open>weightCore\<close>
    as natural numbers: no decrement wraps below zero;
  \<^item> the assumption of such a clause is cleared exactly when its decremented weight is 0,
    and \<^verbatim>\<open>num_hardened\<close> grows by the number of conflict literals whose clause reaches 0;
  \<^item> every other soft clause that was in the formula is unchanged.
\<close>

theorem relaxCore_no_wrap:
  assumes c: "is_conflict s conflict" and reg: "assumption_registered s"
    and pos: "active_positive s"
  shows "\<exists>w s'. computeCostCore conflict s = Inr w \<and> relaxCore conflict w s = Inr s' \<and>
     (\<forall>l \<in> set conflict. coreIndex s l < nSoft s \<and> w \<le> weight (softs s ! coreIndex s l)) \<and>
     (\<forall>j < nSoft s.
        (j \<in> coreIndex s ` set conflict \<longrightarrow>
           unat w \<le> unat (weight (softs s ! j)) \<and>
           unat (weight (softs s' ! j)) = unat (weight (softs s ! j)) - unat w \<and>
           (assumption_var (softs s' ! j) = None) = (weight (softs s' ! j) = 0)) \<and>
        (j \<notin> coreIndex s ` set conflict \<longrightarrow> softs s' ! j = softs s ! j)) \<and>
     num_hardened s' =
       num_hardened s + length (filter (\<lambda>l. weight (softs s' ! coreIndex s l) = 0) conflict)"
proof -
  let ?I = "coreIndex s ` set conflict"
  from c have ne: "conflict \<noteq> []" by (simp add: is_conflict_def)
  from is_conflict_cost[OF c reg pos] obtain w where w: "computeCostCore conflict s = Inr w"
    and w0: "0 < w" and wle: "\<forall>l \<in> set conflict. w \<le> weight (softs s ! coreIndex s l)"
    by blast
  have idx: "\<forall>l \<in> set conflict. coreIndex s l < nSoft s \<and> w \<le> weight (softs s ! coreIndex s l)"
    using is_conflict_index[OF c reg] wle by blast
  from relaxCore_loop_succeeds[OF is_conflict_distinct[OF c reg] idx]
  obtain s1 where l: "relaxCore_loop conflict w s = Inr s1"
    and pt: "\<forall>j < nSoft s.
        weight (softs s1 ! j) = (if j \<in> ?I then weight (softs s ! j) - w else weight (softs s ! j)) \<and>
        assumption_var (softs s1 ! j) =
          (if j \<in> ?I \<and> weight (softs s ! j) = w then None else assumption_var (softs s ! j)) \<and>
        clause (softs s1 ! j) = clause (softs s ! j)"
    and nh: "num_hardened s1 =
       num_hardened s + length (filter (\<lambda>l. weight (softs s ! coreIndex s l) = w) conflict)"
    by blast
  from relaxCore_loop_total_weight[OF l] have len1: "length (softs s1) = length (softs s)" by simp
  from encodeMaxRes_appends[OF ne, of w s1]
  obtain s2 new where e: "encodeMaxRes conflict w s1 = Inr s2"
    and o: "other_members s2 = other_members s1" and sc: "softs s2 = softs s1 @ new"
    by blast
  define s' where "s' = s2\<lparr>sumSizeCores := sumSizeCores s2 + length conflict\<rparr>"
  have run: "relaxCore conflict w s = Inr s'"
    using ne w0 l e by (simp add: relaxCore_def s'_def)
  have nth: "softs s' ! j = softs s1 ! j" if "j < nSoft s" for j
    using that len1 by (simp add: s'_def softs_def sc[unfolded softs_def] nSoft_def nth_append)
  have nh': "num_hardened s' = num_hardened s1"
    using other_members_fields(4)[OF o] by (simp add: s'_def)
  have inI: "unat w \<le> unat (weight (softs s ! j)) \<and>
           unat (weight (softs s' ! j)) = unat (weight (softs s ! j)) - unat w \<and>
           (assumption_var (softs s' ! j) = None) = (weight (softs s' ! j) = 0)"
    if j: "j < nSoft s" and jI: "j \<in> ?I" for j
  proof -
    from jI obtain l where lc: "l \<in> set conflict" and jl: "j = coreIndex s l" by blast
    from idx lc jl have le: "w \<le> weight (softs s ! j)" by simp
    from is_conflict_index[OF c reg lc] jl have av: "assumption_var (softs s ! j) = Some l" by simp
    from pt j jI have "weight (softs s' ! j) = weight (softs s ! j) - w"
      and "assumption_var (softs s' ! j) =
             (if weight (softs s ! j) = w then None else assumption_var (softs s ! j))"
      by (simp_all add: nth[OF j])
    with le av show ?thesis
      by (simp add: unat_sub word_le_nat_alt)
  qed
  have notI: "softs s' ! j = softs s ! j" if j: "j < nSoft s" and jI: "j \<notin> ?I" for j
    using pt j jI by (simp add: nth[OF j])
  have flt: "filter (\<lambda>l. weight (softs s' ! coreIndex s l) = 0) conflict =
             filter (\<lambda>l. weight (softs s ! coreIndex s l) = w) conflict"
  proof (rule filter_cong[OF refl])
    fix l assume lc: "l \<in> set conflict"
    with idx have j: "coreIndex s l < nSoft s" by simp
    from pt j lc have "weight (softs s' ! coreIndex s l) = weight (softs s ! coreIndex s l) - w"
      by (simp add: nth[OF j])
    then show "(weight (softs s' ! coreIndex s l) = 0) = (weight (softs s ! coreIndex s l) = w)"
      by simp
  qed
  have B: "\<forall>j < nSoft s.
        (j \<in> ?I \<longrightarrow>
           unat w \<le> unat (weight (softs s ! j)) \<and>
           unat (weight (softs s' ! j)) = unat (weight (softs s ! j)) - unat w \<and>
           (assumption_var (softs s' ! j) = None) = (weight (softs s' ! j) = 0)) \<and>
        (j \<notin> ?I \<longrightarrow> softs s' ! j = softs s ! j)"
  proof (intro allI impI conjI)
    fix j assume j: "j < nSoft s" and jI: "j \<in> ?I"
    note r = inI[OF j jI]
    from r show "unat w \<le> unat (weight (softs s ! j))" by (rule conjunct1)
    from r show "unat (weight (softs s' ! j)) = unat (weight (softs s ! j)) - unat w"
      by (elim conjE)
    from r show "(assumption_var (softs s' ! j) = None) = (weight (softs s' ! j) = 0)"
      by (elim conjE)
  next
    fix j assume "j < nSoft s" "j \<notin> ?I"
    then show "softs s' ! j = softs s ! j" by (rule notI)
  qed
  have C: "num_hardened s' =
       num_hardened s + length (filter (\<lambda>l. weight (softs s' ! coreIndex s l) = 0) conflict)"
    using nh nh' by (simp only: flt)
  show ?thesis
  proof (intro exI conjI)
    show "computeCostCore conflict s = Inr w" by (rule w)
    show "relaxCore conflict w s = Inr s'" by (rule run)
    show "\<forall>l \<in> set conflict. coreIndex s l < nSoft s \<and> w \<le> weight (softs s ! coreIndex s l)"
      by (rule idx)
    show "\<forall>j < nSoft s.
        (j \<in> ?I \<longrightarrow>
           unat w \<le> unat (weight (softs s ! j)) \<and>
           unat (weight (softs s' ! j)) = unat (weight (softs s ! j)) - unat w \<and>
           (assumption_var (softs s' ! j) = None) = (weight (softs s' ! j) = 0)) \<and>
        (j \<notin> ?I \<longrightarrow> softs s' ! j = softs s ! j)"
      by (rule B)
    show "num_hardened s' =
       num_hardened s + length (filter (\<lambda>l. weight (softs s' ! coreIndex s l) = 0) conflict)"
      by (rule C)
  qed
qed


lemma with_softs_nth:
  "j < length ws \<Longrightarrow> softs (with_softs ws) ! j = unit_soft j (ws ! j)"
  by (simp add: softs_with_softs)

lemma with_softs_registered: "assumption_registered (with_softs ws)"
  by (auto simp: assumption_registered_def nSoft_with_softs with_softs_nth unit_soft_def
      coreIndex_with_softs)

lemma with_softs_positive: "\<forall>w \<in> set ws. 0 < w \<Longrightarrow> active_positive (with_softs ws)"
  by (simp add: active_positive_def nSoft_with_softs with_softs_nth unit_soft_def)

lemma with_softs_conflict:
  "conflict \<noteq> [] \<Longrightarrow> distinct conflict \<Longrightarrow>
   \<forall>l \<in> set conflict. \<not> sign l \<and> var l < length ws \<Longrightarrow> is_conflict (with_softs ws) conflict"
proof -
  assume ne: "conflict \<noteq> []" and d: "distinct conflict"
    and a: "\<forall>l \<in> set conflict. \<not> sign l \<and> var l < length ws"
  have "\<exists>j < nSoft (with_softs ws). assumption_var (softs (with_softs ws) ! j) = Some l"
    if "l \<in> set conflict" for l
  proof -
    from a that have s: "\<not> sign l" and v: "var l < length ws" by simp_all
    from s have "l = Lit (var l) False" by (cases l) simp
    with v show ?thesis
      by (intro exI[of _ "var l"]) (simp add: nSoft_with_softs with_softs_nth unit_soft_def)
  qed
  with ne d show ?thesis unfolding is_conflict_def by blast
qed

lemmas relax_eval =
  relaxCore_def encodeMaxRes_def newLiteral_def addHardClause_def addSoftClause_def
  addSoftClauseAndAssumptionVar_def encodeMaxRes_chain_def encodeMaxRes_soft_def set_softs_def
  coreIndex_def

theorem relaxCore_no_wrap_witness:
  "is_conflict (with_softs [5, 3, 7]) [Lit 0 False, Lit 1 False] \<and>
   assumption_registered (with_softs [5, 3, 7]) \<and> active_positive (with_softs [5, 3, 7]) \<and>
   computeCostCore [Lit 0 False, Lit 1 False] (with_softs [5, 3, 7]) = Inr 3 \<and>
   (\<exists>s'. relaxCore [Lit 0 False, Lit 1 False] 3 (with_softs [5, 3, 7]) = Inr s' \<and>
         map weight (softs s') = [2, 0, 7, 3] \<and>
         map assumption_var (softs s') =
           [Some (Lit 0 False), None, Some (Lit 2 False), Some (Lit 4 False)] \<and>
         num_hardened s' = 1)"
proof -
  let ?S = "with_softs [5, 3, 7]"
  let ?C = "[Lit 0 False, Lit 1 False]"
  have c: "is_conflict ?S ?C" by (rule with_softs_conflict) simp_all
  have r: "assumption_registered ?S" by (rule with_softs_registered)
  have p: "active_positive ?S" by (rule with_softs_positive) simp
  have cost: "computeCostCore ?C ?S = Inr 3"
    by (simp add: computeCostCore_def coreIndex_def eval_defs)
  from relaxCore_no_wrap[OF c r p] cost obtain s' where run: "relaxCore ?C 3 ?S = Inr s'"
    by auto
  have "map weight (softs (projr (relaxCore ?C 3 ?S))) = [2, 0, 7, 3] \<and>
        map assumption_var (softs (projr (relaxCore ?C 3 ?S))) =
           [Some (Lit 0 False), None, Some (Lit 2 False), Some (Lit 4 False)] \<and>
        num_hardened (projr (relaxCore ?C 3 ?S)) = 1"
    by (simp add: relax_eval eval_defs)
  with run c r p cost show ?thesis by simp
qed

section \<open>weightDisjointCores\<close>

lemma relaxCore_loop_nbCores:
  "relaxCore_loop ls w s = Inr s' \<Longrightarrow> nbCores s' = nbCores s"
proof (induction ls arbitrary: s)
  case Nil
  then show ?case by simp
next
  case (Cons l ls)
  from Cons.prems[unfolded relaxCore_loop_Cons]
  have r: "relaxCore_loop ls w (relax_round w (coreIndex s l) s) = Inr s'"
    by (simp split: if_splits)
  from Cons.IH[OF r] show ?case by (simp add: relax_round_def)
qed

lemma relaxCore_nbCores:
  assumes "relaxCore conflict w s = Inr s'"
  shows "nbCores s' = nbCores s"
proof -
  from relaxCore_InrD[OF assms] obtain s1 s2 where ne: "conflict \<noteq> []"
    and l: "relaxCore_loop conflict w s = Inr s1"
    and e: "encodeMaxRes conflict w s1 = Inr s2"
    and s': "s' = s2\<lparr>sumSizeCores := sumSizeCores s2 + length conflict\<rparr>"
    by blast
  from encodeMaxRes_appends[OF ne, of w s1] e have "other_members s2 = other_members s1"
    by auto
  from other_members_fields(8)[OF this] relaxCore_loop_nbCores[OF l] show ?thesis
    by (simp add: s')
qed

lemma coreStep_nbCores:
  assumes "coreStep conflict s = Inr s'"
  shows "nbCores s' = Suc (nbCores s)"
proof -
  let ?s1 = "s\<lparr>nbCores := Suc (nbCores s)\<rparr>"
  from assms have ne: "length conflict > 0" by (simp add: coreStep_def Let_def split: if_splits)
  show ?thesis
  proof (cases "computeCostCore conflict ?s1")
    case (Inl e)
    with assms ne show ?thesis by (simp add: coreStep_def Let_def)
  next
    case (Inr w)
    with assms ne have "relaxCore conflict w (checkGap (?s1\<lparr>lbCost := lbCost ?s1 + w\<rparr>)) = Inr s'"
      by (simp add: coreStep_def Let_def)
    from relaxCore_nbCores[OF this] show ?thesis by (simp add: checkGap_def Let_def)
  qed
qed

lemma setAssumptions_frame:
  assumes "setAssumptions s = Inr s'"
  shows "nbCores s' = nbCores s" "lbCost s' = lbCost s" "ubCost s' = ubCost s"
    "known_gap s' = known_gap s" "softs s' = softs s"
proof -
  from assms have "setAssumptions_loop [0..<softs_added s]
                     (s\<lparr>nbCurrentSoft := 0, assumptions := []\<rparr>) = Inr s'"
    by (simp add: setAssumptions_def)
  from setAssumptions_loop_result[OF this]
  obtain a n where "s' = s\<lparr>nbCurrentSoft := 0, assumptions := []\<rparr>\<lparr>assumptions := a, nbCurrentSoft := n\<rparr>"
    by blast
  then show "nbCores s' = nbCores s" "lbCost s' = lbCost s" "ubCost s' = ubCost s"
    "known_gap s' = known_gap s" "softs s' = softs s"
    by (simp_all add: softs_def)
qed

lemma weightDisjointCores_status:
  "weightDisjointCores ts s = Some (Inr (us, s')) \<Longrightarrow>
   (us = SATISFIABLE \<or> us = UNKNOWN \<or> us = ERROR) \<and>
   nbCores s \<le> nbCores s' \<and>
   (us = ERROR \<longrightarrow> nbCores s < nbCores s' \<and> ubCost s' < lbCost s') \<and>
   (us \<noteq> ERROR \<and> nbCores s < nbCores s' \<longrightarrow> lbCost s' \<le> ubCost s') \<and>
   (us \<noteq> ERROR \<and> nbCores s = nbCores s' \<longrightarrow> lbCost s' = lbCost s \<and> ubCost s' = ubCost s)"
proof (induction ts arbitrary: s)
  case Nil
  then show ?case by simp
next
  case (Cons t ts)
  from Cons.prems consider
      (timeout) "us = UNKNOWN" "s' = s"
    | (sat) s1 m where "setAssumptions s = Inr s1" "us = SATISFIABLE" "s' = setModel m s1"
    | (interrupted) s1 where "setAssumptions s = Inr s1" "us = UNKNOWN" "s' = s1"
    | (error) s1 c s2 where "setAssumptions s = Inr s1" "coreStep c s1 = Inr s2"
        "ubCost s2 < lbCost s2" "us = ERROR" "s' = s2"
    | (continue) s1 c s2 where "setAssumptions s = Inr s1" "coreStep c s1 = Inr s2"
        "\<not> ubCost s2 < lbCost s2" "weightDisjointCores ts s2 = Some (Inr (us, s'))"
    by (auto split: if_splits sum.splits oracle_answer.splits)
  then show ?case
  proof cases
    case timeout
    then show ?thesis by simp
  next
    case sat
    with setAssumptions_frame[OF sat(1)] show ?thesis by (simp add: setModel_def)
  next
    case interrupted
    with setAssumptions_frame[OF interrupted(1)] show ?thesis by simp
  next
    case error
    with setAssumptions_frame[OF error(1)] coreStep_nbCores[OF error(2)] show ?thesis by simp
  next
    case continue
    from Cons.IH[OF continue(4)] continue(3) setAssumptions_frame[OF continue(1)]
      coreStep_nbCores[OF continue(2)]
    show ?thesis by (auto simp: not_less)
  qed
qed

lemma other_members_timeLimitCores:
  assumes "other_members s' = other_members s"
  shows "timeLimitCores s' = timeLimitCores s"
proof -
  have "timeLimitCores (other_members s') = timeLimitCores (other_members s)"
    by (simp only: assms)
  then show ?thesis by (simp add: other_members_def)
qed

lemma relaxCore_loop_timeLimitCores:
  "relaxCore_loop ls w s = Inr s' \<Longrightarrow> timeLimitCores s' = timeLimitCores s"
proof (induction ls arbitrary: s)
  case Nil
  then show ?case by simp
next
  case (Cons l ls)
  from Cons.prems[unfolded relaxCore_loop_Cons]
  have r: "relaxCore_loop ls w (relax_round w (coreIndex s l) s) = Inr s'"
    by (simp split: if_splits)
  from Cons.IH[OF r] show ?case by (simp add: relax_round_def)
qed

lemma coreStep_timeLimitCores:
  assumes "coreStep conflict s = Inr s'"
  shows "timeLimitCores s' = timeLimitCores s"
proof -
  let ?s1 = "s\<lparr>nbCores := Suc (nbCores s)\<rparr>"
  from assms have ne: "length conflict > 0" by (simp add: coreStep_def Let_def split: if_splits)
  show ?thesis
  proof (cases "computeCostCore conflict ?s1")
    case (Inl e)
    with assms ne show ?thesis by (simp add: coreStep_def Let_def)
  next
    case (Inr w)
    with assms ne have r: "relaxCore conflict w (checkGap (?s1\<lparr>lbCost := lbCost ?s1 + w\<rparr>)) = Inr s'"
      by (simp add: coreStep_def Let_def)
    from relaxCore_InrD[OF r] obtain s1 s2 where ne': "conflict \<noteq> []"
      and l: "relaxCore_loop conflict w (checkGap (?s1\<lparr>lbCost := lbCost ?s1 + w\<rparr>)) = Inr s1"
      and e: "encodeMaxRes conflict w s1 = Inr s2"
      and s': "s' = s2\<lparr>sumSizeCores := sumSizeCores s2 + length conflict\<rparr>"
      by blast
    from encodeMaxRes_appends[OF ne', of w s1] e have "other_members s2 = other_members s1"
      by auto
    from other_members_timeLimitCores[OF this] relaxCore_loop_timeLimitCores[OF l]
    show ?thesis by (simp add: s' checkGap_def Let_def)
  qed
qed

lemma setAssumptions_timeLimitCores:
  assumes "setAssumptions s = Inr s'"
  shows "timeLimitCores s' = timeLimitCores s"
proof -
  from assms have "setAssumptions_loop [0..<softs_added s]
                     (s\<lparr>nbCurrentSoft := 0, assumptions := []\<rparr>) = Inr s'"
    by (simp add: setAssumptions_def)
  from setAssumptions_loop_result[OF this]
  obtain a n where "s' = s\<lparr>nbCurrentSoft := 0, assumptions := []\<rparr>\<lparr>assumptions := a, nbCurrentSoft := n\<rparr>"
    by blast
  then show ?thesis by simp
qed

text \<open>
  The reading of the clock and of the oracle that ends the loop with the given status.
\<close>

definition ends_with :: "PMRES \<Rightarrow> StatusCode \<Rightarrow> PMRES \<Rightarrow> tick \<Rightarrow> bool" where
  "ends_with s us s' t =
     (case us of
        SATISFIABLE \<Rightarrow> answer t = Sat (model (solver s'))
      | UNKNOWN \<Rightarrow> answer t = Interrupted \<or>
                   (0 < timeLimitCores s \<and> timeLimitCores s - elapsed t \<le> 0)
      | ERROR \<Rightarrow> (\<exists>c. answer t = Unsat c)
      | _ \<Rightarrow> False)"

lemma weightDisjointCores_cause:
  "weightDisjointCores ts s = Some (Inr (us, s')) \<Longrightarrow> \<exists>t \<in> set ts. ends_with s us s' t"
proof (induction ts arbitrary: s)
  case Nil
  then show ?case by simp
next
  case (Cons t ts)
  from Cons.prems consider
      (timeout) "0 < timeLimitCores s" "timeLimitCores s - elapsed t \<le> 0" "us = UNKNOWN"
    | (sat) s1 m where "answer t = Sat m" "us = SATISFIABLE" "s' = setModel m s1"
    | (interrupted) "answer t = Interrupted" "us = UNKNOWN"
    | (error) c where "answer t = Unsat c" "us = ERROR"
    | (continue) s1 c s2 where "setAssumptions s = Inr s1" "coreStep c s1 = Inr s2"
        "weightDisjointCores ts s2 = Some (Inr (us, s'))"
    by (auto split: if_splits sum.splits oracle_answer.splits)
  then show ?case
  proof cases
    case timeout
    then show ?thesis by (simp add: ends_with_def)
  next
    case sat
    then show ?thesis by (simp add: ends_with_def setModel_def)
  next
    case interrupted
    then show ?thesis by (simp add: ends_with_def)
  next
    case error
    then show ?thesis by (simp add: ends_with_def)
  next
    case continue
    from Cons.IH[OF continue(3)] obtain t' where "t' \<in> set ts" "ends_with s2 us s' t'"
      by blast
    moreover have "timeLimitCores s2 = timeLimitCores s"
      using setAssumptions_timeLimitCores[OF continue(1)] coreStep_timeLimitCores[OF continue(2)]
      by simp
    then have "ends_with s2 us s' t' = ends_with s us s' t'"
      by (cases us) (simp_all add: ends_with_def)
    ultimately have "t' \<in> set (t # ts)" "ends_with s us s' t'" by simp_all
    then show ?thesis by blast
  qed
qed

text \<open>
  C9: whenever \<^verbatim>\<open>weightDisjointCores\<close> returns a status, the status is
  \<^verbatim>\<open>SATISFIABLE\<close> (the oracle answered true, and its model is the model of the state
  returned), \<^verbatim>\<open>UNKNOWN\<close> (the time budget is exhausted or the oracle was interrupted)
  or \<^verbatim>\<open>ERROR\<close>, and it is \<^verbatim>\<open>ERROR\<close> exactly when a relaxation of this call has left
  \<open>lbCost > ubCost\<close>. It is never \<^verbatim>\<open>OPTIMUM\<close>, so the tests of \<^verbatim>\<open>weightSearch\<close> and
  \<^verbatim>\<open>coreGuidedLinearSearch\<close> against \<^verbatim>\<open>OPTIMUM\<close> never lead to
  \<^verbatim>\<open>getModelAfterCG\<close>.
\<close>

theorem weightDisjointCores_never_optimum:
  assumes "weightDisjointCores ts s = Some (Inr (us, s'))"
  shows "(us = SATISFIABLE \<or> us = UNKNOWN \<or> us = ERROR) \<and> us \<noteq> OPTIMUM \<and>
         (\<exists>t \<in> set ts. ends_with s us s' t) \<and>
         (us = ERROR) = (nbCores s < nbCores s' \<and> ubCost s' < lbCost s') \<and>
         weightSearch_branch us \<noteq> Inr CallGetModelAfterCG \<and>
         coreGuidedLinearSearch_branch us \<noteq> Inr CallGetModelAfterCG"
proof -
  note W = weightDisjointCores_status[OF assms]
  from W have st: "us = SATISFIABLE \<or> us = UNKNOWN \<or> us = ERROR" by blast
  then have no: "us \<noteq> OPTIMUM" by auto
  have e: "(us = ERROR) = (nbCores s < nbCores s' \<and> ubCost s' < lbCost s')"
  proof (cases "us = ERROR")
    case True
    with W show ?thesis by blast
  next
    case False
    with W have "nbCores s < nbCores s' \<longrightarrow> lbCost s' \<le> ubCost s'" by blast
    with False show ?thesis by (auto simp: not_less)
  qed
  from no have "weightSearch_branch us \<noteq> Inr CallGetModelAfterCG"
    "coreGuidedLinearSearch_branch us \<noteq> Inr CallGetModelAfterCG"
    by (simp_all add: weightSearch_branch_def coreGuidedLinearSearch_branch_def)
  with st no e weightDisjointCores_cause[OF assms] show ?thesis by blast
qed

definition core_then_model :: "tick list" where
  "core_then_model =
     [\<lparr>elapsed = 0, answer = Unsat [Lit 0 False, Lit 1 False]\<rparr>,
      \<lparr>elapsed = 1, answer = Sat [l_False, l_True]\<rparr>]"

lemmas driver_eval =
  setAssumptions_def shouldAdd_def coreStep_def computeCostCore_def checkGap_def setModel_def
  relax_eval eval_defs

theorem weightDisjointCores_never_optimum_witness:
  "(\<exists>s'. weightDisjointCores core_then_model ((with_softs [5, 3])\<lparr>ubCost := 10\<rparr>) =
            Some (Inr (SATISFIABLE, s')) \<and> lbCost s' = 3 \<and> nbCores s' = 1) \<and>
   (\<exists>s'. weightDisjointCores core_then_model ((with_softs [5, 3])\<lparr>ubCost := 2\<rparr>) =
            Some (Inr (ERROR, s')) \<and> lbCost s' = 3 \<and> nbCores s' = 1) \<and>
   weightSearch_branch SATISFIABLE = Inr ModelFound \<and>
   coreGuidedLinearSearch_branch ERROR = Inl AssertionFailed"
proof -
  let ?S = "(with_softs [5, 3])\<lparr>ubCost := 10\<rparr>"
  let ?E = "(with_softs [5, 3])\<lparr>ubCost := 2\<rparr>"
  let ?rs = "snd (projr (the (weightDisjointCores core_then_model ?S)))"
  let ?re = "snd (projr (the (weightDisjointCores core_then_model ?E)))"
  have rs: "weightDisjointCores core_then_model ?S = Some (Inr (SATISFIABLE, ?rs))"
    by (simp add: core_then_model_def driver_eval)
  have re: "weightDisjointCores core_then_model ?E = Some (Inr (ERROR, ?re))"
    by (simp add: core_then_model_def driver_eval)
  have ls: "lbCost ?rs = 3" "nbCores ?rs = 1"
    by (simp_all add: core_then_model_def driver_eval)
  have le: "lbCost ?re = 3" "nbCores ?re = 1"
    by (simp_all add: core_then_model_def driver_eval)
  from weightDisjointCores_never_optimum[OF rs] weightDisjointCores_never_optimum[OF re]
  have "weightSearch_branch SATISFIABLE \<noteq> Inr CallGetModelAfterCG"
    "coreGuidedLinearSearch_branch ERROR \<noteq> Inr CallGetModelAfterCG"
    by simp_all
  then have "weightSearch_branch SATISFIABLE = Inr ModelFound"
    "coreGuidedLinearSearch_branch ERROR = Inl AssertionFailed"
    by (simp_all add: weightSearch_branch_def coreGuidedLinearSearch_branch_def)
  with rs re ls le show ?thesis by blast
qed

section \<open>Runs: the bounds and the total weight\<close>

text \<open>An operation that leaves the three bounds and the soft clauses as they are.\<close>

definition same_bounds :: "PMRES \<Rightarrow> PMRES \<Rightarrow> bool" where
  "same_bounds s s' =
     (lbCost s' = lbCost s \<and> ubCost s' = ubCost s \<and> known_gap s' = known_gap s \<and>
      softs s' = softs s)"

lemma same_bounds_refl: "same_bounds s s"
  by (simp add: same_bounds_def)

lemma same_bounds_trans: "same_bounds s t \<Longrightarrow> same_bounds t u \<Longrightarrow> same_bounds s u"
  by (simp add: same_bounds_def)

lemma same_bounds_setMaximumWeight: "same_bounds s (setMaximumWeight w s)"
  by (simp add: same_bounds_def setMaximumWeight_def softs_def)

lemma map_sum_setMaximumWeight:
  "map_sum id (\<lambda>w. setMaximumWeight w s) z = Inr s' \<Longrightarrow> \<exists>w. s' = setMaximumWeight w s"
  by (cases z) auto

lemma updateDivisionFactor_bounds:
  "updateDivisionFactor s = Some (Inr s') \<Longrightarrow> same_bounds s s'"
  by (auto simp: updateDivisionFactor_def same_bounds_setMaximumWeight
      split: if_splits dest!: map_sum_setMaximumWeight)

lemma updateDivisionFactorLinear_bounds:
  "updateDivisionFactorLinear s = Some (Inr s') \<Longrightarrow> same_bounds s s'"
  by (auto simp: updateDivisionFactorLinear_def same_bounds_setMaximumWeight
      split: if_splits dest!: map_sum_setMaximumWeight)

lemma updateCurrentWeight_bounds:
  "updateCurrentWeight strategy s = Some (Inr s') \<Longrightarrow> same_bounds s s'"
  by (auto simp: updateCurrentWeight_def same_bounds_setMaximumWeight updateDivisionFactor_bounds
      split: if_splits dest!: map_sum_setMaximumWeight)

lemma initializeDivisionFactor_bounds:
  assumes "initializeDivisionFactor pw v s = Some (Inr s')"
  shows "same_bounds s s'"
proof (cases v)
  case False
  with assms show ?thesis
    by (auto simp: initializeDivisionFactor_def same_bounds_setMaximumWeight)
next
  case True
  let ?s1 = "resetMaximumWeight s"
  have b1: "same_bounds s ?s1"
    by (simp add: resetMaximumWeight_def same_bounds_setMaximumWeight)
  from assms True obtain w where "s' = setMaximumWeight w ?s1"
    by (auto simp: initializeDivisionFactor_def Let_def split: option.splits sum.splits
        dest!: map_sum_setMaximumWeight)
  then have "same_bounds ?s1 s'" by (simp add: same_bounds_setMaximumWeight)
  with b1 show ?thesis by (rule same_bounds_trans)
qed

lemma initRelaxation_loop_bounds:
  "initRelaxation_loop cs comW u s = Inr (u', s') \<Longrightarrow> same_bounds s s'"
proof (induction cs arbitrary: comW u s)
  case Nil
  then show ?case by (simp add: same_bounds_refl)
next
  case (Cons c cs)
  show ?case
  proof (cases "weight c div getMaximumWeight s > 0")
    case True
    with Cons.prems obtain l where
      r: "initRelaxation_loop cs (if comW = 0 then weight c div getMaximumWeight s else comW)
            (u \<and> (comW = 0 \<or> comW = weight c div getMaximumWeight s))
            (s\<lparr>objFunction := objFunction s @ [l],
               coeffs := coeffs s @ [weight c div getMaximumWeight s],
               nbCurrentSoft := Suc (nbCurrentSoft s)\<rparr>) = Inr (u', s')"
      by (auto simp: Let_def split: if_splits option.splits)
    from Cons.IH[OF r] show ?thesis by (simp add: same_bounds_def softs_def)
  next
    case False
    with Cons.prems have "initRelaxation_loop cs comW u s = Inr (u', s')"
      by (auto simp: Let_def split: if_splits)
    from Cons.IH[OF this] show ?thesis .
  qed
qed

lemma initRelaxation_bounds:
  assumes "initRelaxation s = Inr s'"
  shows "same_bounds s s'"
proof -
  let ?s0 = "s\<lparr>objFunction := [], coeffs := [], nbCurrentSoft := 0\<rparr>"
  from assms obtain u s1 where l: "initRelaxation_loop (softs s) 0 True ?s0 = Inr (u, s1)"
    and s': "s' = setProblemType (if u \<and> \<not> incrementalVarres s1 then UNWEIGHTED else WEIGHTED) s1"
    by (auto simp: initRelaxation_def split: sum.splits)
  from initRelaxation_loop_bounds[OF l] have "same_bounds ?s0 s1" .
  then show ?thesis by (simp add: same_bounds_def s' setProblemType_def softs_def)
qed

lemma checkModel_bounds:
  assumes "checkModel s = Inr (b, s')"
  shows "lbCost s' = lbCost s" "ubCost s' \<le> ubCost s" "known_gap s' \<le> known_gap s"
    "softs s' = softs s"
proof -
  from assms obtain c where c: "computeCostModelPMRES (model (solver s)) s = Inr c"
    by (auto simp: checkModel_def split: sum.splits)
  define s1 where "s1 = (if c < ubCost s then checkGap (saveModels (s\<lparr>ubCost := c\<rparr>)) else s)"
  define s2 where "s2 = (if c = ubCost s1 \<and> length (model (solver s1)) > length (bestModel s1)
                    then saveModels s1 else s1)"
  from assms c have s': "s' = s2"
    by (auto simp: checkModel_def Let_def s1_def s2_def split: if_splits)
  have f1: "lbCost s1 = lbCost s" "ubCost s1 \<le> ubCost s" "known_gap s1 \<le> known_gap s"
    "softs s1 = softs s"
    by (auto simp: s1_def checkGap_def saveModels_def Let_def softs_def)
  have f2: "lbCost s2 = lbCost s1" "ubCost s2 = ubCost s1" "known_gap s2 = known_gap s1"
    "softs s2 = softs s1"
    by (simp_all add: s2_def saveModels_def softs_def)
  from f1 f2 show "lbCost s' = lbCost s" "ubCost s' \<le> ubCost s" "known_gap s' \<le> known_gap s"
    "softs s' = softs s"
    by (simp_all add: s')
qed

lemma weightSearch_bound_bounds:
  assumes "weightSearch_bound s = Inr s'"
  shows "lbCost s' = lbCost s" "ubCost s' \<le> ubCost s" "known_gap s' = known_gap s"
    "softs s' = softs s"
  using assms
  by (auto simp: weightSearch_bound_def Let_def softs_def split: sum.splits if_splits)

lemma closeGap_bounds:
  assumes "closeGap s = Inr s'"
  shows "lbCost s' = lbCost s" "ubCost s' \<le> ubCost s" "known_gap s' = known_gap s"
    "softs s' = softs s"
  using assms
  by (auto simp: closeGap_def softs_def split: sum.splits if_splits)


lemma same_bounds_total_weight: "same_bounds s s' \<Longrightarrow> total_weight s' = total_weight s"
  by (simp add: same_bounds_def total_weight_def)

lemma core_weight_CoreRelaxation:
  "computeCostCore conflict s = Inr w \<Longrightarrow> core_weight (CoreRelaxation conflict) s = unat w"
  by (simp add: core_weight_def)

lemma apply_op_effect:
  assumes "apply_op pw x s = Some (Inr s')"
  shows "ubCost s' \<le> ubCost s \<and> known_gap s' \<le> known_gap s \<and>
         lbCost s' = lbCost s + of_nat (core_weight x s) \<and>
         total_weight s' + core_weight x s + (if x = Hardening then harden_removed s else 0) =
           total_weight s"
proof -
  have mono: ?thesis
    if "lbCost s' = lbCost s" "ubCost s' \<le> ubCost s" "known_gap s' \<le> known_gap s"
      "softs s' = softs s" "core_weight x s = 0" "x \<noteq> Hardening"
  proof -
    from that(4) have "total_weight s' = total_weight s" by (simp add: total_weight_def)
    with that(1,2,3,5,6) show ?thesis by simp
  qed
  have sb: ?thesis if "same_bounds s s'" "core_weight x s = 0" "x \<noteq> Hardening"
    using that(1) by (intro mono that(2,3)) (simp_all add: same_bounds_def)
  show ?thesis
  proof (cases x)
    case (CoreRelaxation conflict)
    with assms have c: "coreStep conflict s = Inr s'" by simp
    from coreStep_result(1)[OF c] obtain w where w: "computeCostCore conflict s = Inr w"
      and lb: "lbCost s' = lbCost s + w" and t: "total_weight s' + unat w = total_weight s"
      by blast
    from coreStep_result(2,3)[OF c] lb t core_weight_CoreRelaxation[OF w] CoreRelaxation
    show ?thesis by simp
  next
    case (OracleModel m)
    with assms have "s' = setModel m s" by simp
    then have "same_bounds s s'" by (simp add: same_bounds_def setModel_def softs_def)
    then show ?thesis by (rule sb) (simp_all add: OracleModel core_weight_def)
  next
    case ModelChecking
    with assms have m: "map_sum id snd (checkModel s) = Inr s'" by simp
    have cw: "core_weight x s = 0" "x \<noteq> Hardening"
      by (simp_all add: ModelChecking core_weight_def)
    show ?thesis
    proof (cases "checkModel s")
      case (Inl e)
      with m show ?thesis by simp
    next
      case (Inr y)
      obtain b u where y: "y = (b, u)" by (cases y)
      with m Inr have "checkModel s = Inr (b, s')" by simp
      from checkModel_bounds[OF this] cw show ?thesis by (rule mono)
    qed
  next
    case WeightSearchBound
    with assms have "weightSearch_bound s = Inr s'" by simp
    note B = weightSearch_bound_bounds[OF this]
    from B(1,2) order_eq_refl[OF B(3)] B(4) show ?thesis
      by (rule mono) (simp_all add: WeightSearchBound core_weight_def)
  next
    case CloseGap
    with assms have "closeGap s = Inr s'" by simp
    note B = closeGap_bounds[OF this]
    from B(1,2) order_eq_refl[OF B(3)] B(4) show ?thesis
      by (rule mono) (simp_all add: CloseGap core_weight_def)
  next
    case Hardening
    with assms have h: "hardenClauses s = Inr s'" by simp
    have "core_weight x s = 0" by (simp add: Hardening core_weight_def)
    with hardenClauses_result(7-9)[OF h] hardenClauses_total_weight[OF h] Hardening
    show ?thesis by simp
  next
    case Stratification
    with assms have "updateCurrentWeight (weightStrategy s) s = Some (Inr s')" by simp
    from updateCurrentWeight_bounds[OF this] show ?thesis
      by (rule sb) (simp_all add: Stratification core_weight_def)
  next
    case SetAssumptions
    with assms have "setAssumptions s = Inr s'" by simp
    from setAssumptions_frame[OF this] have "same_bounds s s'" by (simp add: same_bounds_def)
    then show ?thesis by (rule sb) (simp_all add: SetAssumptions core_weight_def)
  next
    case ClearAssumptions
    with assms have "s' = s\<lparr>assumptions := []\<rparr>" by simp
    then have "same_bounds s s'" by (simp add: same_bounds_def softs_def)
    then show ?thesis by (rule sb) (simp_all add: ClearAssumptions core_weight_def)
  next
    case UpdateSolver
    with assms have "s' = updateSolver s" by simp
    then have "same_bounds s s'" by (simp add: same_bounds_def softs_def updateSolver_def)
    then show ?thesis by (rule sb) (simp_all add: UpdateSolver core_weight_def)
  next
    case ResetSolver
    with assms have "s' = resetSolver s" by simp
    then have "same_bounds s s'"
      by (simp add: same_bounds_def softs_def updateSolver_def resetSolver_def)
    then show ?thesis by (rule sb) (simp_all add: ResetSolver core_weight_def)
  next
    case (InitDivisionFactor v)
    with assms have "initializeDivisionFactor pw v s = Some (Inr s')" by simp
    from initializeDivisionFactor_bounds[OF this] show ?thesis
      by (rule sb) (simp_all add: InitDivisionFactor core_weight_def)
  next
    case UpdateDivisionFactorLinear
    with assms have "updateDivisionFactorLinear s = Some (Inr s')" by simp
    from updateDivisionFactorLinear_bounds[OF this] show ?thesis
      by (rule sb) (simp_all add: UpdateDivisionFactorLinear core_weight_def)
  next
    case InitRelaxation
    with assms have "initRelaxation s = Inr s'" by simp
    from initRelaxation_bounds[OF this] show ?thesis
      by (rule sb) (simp_all add: InitRelaxation core_weight_def)
  qed
qed

lemma run_Cons_Inr:
  assumes "run pw (x # xs) s = Some (Inr s')"
  shows "\<exists>s1. apply_op pw x s = Some (Inr s1) \<and> run pw xs s1 = Some (Inr s')"
  using assms by (auto split: option.splits sum.splits)

lemma run_total_weight:
  "run pw xs s = Some (Inr s') \<Longrightarrow>
   total_weight s' + absorbed_into_lb pw xs s + absorbed_into_hardened pw xs s = total_weight s \<and>
   lbCost s' = lbCost s + of_nat (absorbed_into_lb pw xs s) \<and>
   ubCost s' \<le> ubCost s \<and> known_gap s' \<le> known_gap s"
proof (induction xs arbitrary: s)
  case Nil
  then show ?case by simp
next
  case (Cons x xs)
  from run_Cons_Inr[OF Cons.prems] obtain s1 where a: "apply_op pw x s = Some (Inr s1)"
    and r: "run pw xs s1 = Some (Inr s')" by blast
  note E = apply_op_effect[OF a]
  note I = Cons.IH[OF r]
  have A: "absorbed_into_lb pw (x # xs) s = core_weight x s + absorbed_into_lb pw xs s1"
    "absorbed_into_hardened pw (x # xs) s =
       (if x = Hardening then harden_removed s else 0) + absorbed_into_hardened pw xs s1"
    using a by simp_all
  from E have e1: "ubCost s1 \<le> ubCost s" and e2: "known_gap s1 \<le> known_gap s"
    and e3: "lbCost s1 = lbCost s + of_nat (core_weight x s)"
    and e4: "total_weight s1 + core_weight x s +
               (if x = Hardening then harden_removed s else 0) = total_weight s"
    by blast+
  from I have i1: "total_weight s' + absorbed_into_lb pw xs s1 +
                     absorbed_into_hardened pw xs s1 = total_weight s1"
    and i2: "lbCost s' = lbCost s1 + of_nat (absorbed_into_lb pw xs s1)"
    and i3: "ubCost s' \<le> ubCost s1" and i4: "known_gap s' \<le> known_gap s1"
    by blast+
  from e1 i3 have c1: "ubCost s' \<le> ubCost s" by (rule order_trans[rotated])
  from e2 i4 have c2: "known_gap s' \<le> known_gap s" by (rule order_trans[rotated])
  have c3: "lbCost s' = lbCost s + of_nat (absorbed_into_lb pw (x # xs) s)"
    unfolding A i2 e3 by simp
  have c4: "total_weight s' + absorbed_into_lb pw (x # xs) s +
              absorbed_into_hardened pw (x # xs) s = total_weight s"
    unfolding A using e4 i1 by linarith
  from c1 c2 c3 c4 show ?case by blast
qed


lemma relaxCore_steps:
  assumes "relaxCore conflict w t = Inr r"
  shows "\<exists>t1. relaxCore_loop conflict w t = Inr t1 \<and>
              total_weight t1 + length conflict * unat w = total_weight t \<and>
              total_weight r = total_weight t1 + (length conflict - 1) * unat w"
proof -
  from relaxCore_InrD[OF assms] obtain t1 t2 where ne: "conflict \<noteq> []"
    and l: "relaxCore_loop conflict w t = Inr t1"
    and e: "encodeMaxRes conflict w t1 = Inr t2"
    and r: "r = t2\<lparr>sumSizeCores := sumSizeCores t2 + length conflict\<rparr>"
    by blast
  from encodeMaxRes_appends[OF ne, of w t1] e
  obtain new where sc: "softs t2 = softs t1 @ new"
    and sm: "sum_list (map (\<lambda>c. unat (weight c)) new) = (length conflict - 1) * unat w"
    by auto
  have "total_weight r = total_weight t1 + (length conflict - 1) * unat w"
    using sc sm by (simp add: total_weight_def r softs_def)
  with l relaxCore_loop_total_weight[OF l] show ?thesis by blast
qed

text \<open>
  C5: along every run, the total weight of the current soft clauses, plus the core weights
  added to \<^verbatim>\<open>lbCost\<close>, plus the weights removed by the hardener, is the total weight of
  the soft clauses at the start of the run (for \<^verbatim>\<open>search\<close>, the sum of the weights of
  the formula), and \<^verbatim>\<open>lbCost\<close> has grown by exactly the core weights (as a 64-bit
  number). In particular every call of \<^verbatim>\<open>relaxCore\<close> that returns, on a core of size
  \<open>n\<close> with weight \<open>w\<close>, first takes \<open>n\<close> times \<open>w\<close> off the soft weights, then
  appends \<open>n - 1\<close> soft clauses of weight \<open>w\<close>: the total weight decreases by exactly
  \<open>w\<close>.
\<close>

theorem sum_invariant:
  assumes "run pw xs s = Some (Inr s')"
  shows "total_weight s' + absorbed_into_lb pw xs s + absorbed_into_hardened pw xs s =
           total_weight s \<and>
         lbCost s' = lbCost s + of_nat (absorbed_into_lb pw xs s) \<and>
         (\<forall>conflict w t r. relaxCore conflict w t = Inr r \<longrightarrow>
            (\<exists>t1. relaxCore_loop conflict w t = Inr t1 \<and>
                  total_weight t1 + length conflict * unat w = total_weight t \<and>
                  total_weight r = total_weight t1 + (length conflict - 1) * unat w) \<and>
            length (softs r) = length (softs t) + (length conflict - 1) \<and>
            total_weight r + unat w = total_weight t)"
  using run_total_weight[OF assms] relaxCore_steps relaxCore_total_weight(1,2) by blast

definition relax_then_harden :: "solver_op list" where
  "relax_then_harden =
     [CoreRelaxation [Lit 0 False, Lit 1 False], OracleModel [l_False, l_False, l_False],
      Hardening]"

lemmas run_eval =
  hardenClauses_def harden_satisfied_def litTrue_def solver_addClause_def hardenLazily_def
  harden_removed_def hardens_def hardens_at_def core_weight_def total_weight_def driver_eval

theorem sum_invariant_witness:
  "total_weight ((with_softs [5, 3, 7])\<lparr>ubCost := 10\<rparr>) = 15 \<and>
   absorbed_into_lb exact_pow relax_then_harden ((with_softs [5, 3, 7])\<lparr>ubCost := 10\<rparr>) = 3 \<and>
   absorbed_into_hardened exact_pow relax_then_harden ((with_softs [5, 3, 7])\<lparr>ubCost := 10\<rparr>) = 7 \<and>
   (\<exists>s'. run exact_pow relax_then_harden ((with_softs [5, 3, 7])\<lparr>ubCost := 10\<rparr>) =
            Some (Inr s') \<and> total_weight s' = 5 \<and> lbCost s' = 3)"
proof -
  let ?S = "(with_softs [5, 3, 7])\<lparr>ubCost := 10\<rparr>"
  let ?r = "projr (the (run exact_pow relax_then_harden ?S))"
  have r: "run exact_pow relax_then_harden ?S = Some (Inr ?r)"
    by (simp add: relax_then_harden_def run_eval)
  have a: "absorbed_into_lb exact_pow relax_then_harden ?S = 3"
    "absorbed_into_hardened exact_pow relax_then_harden ?S = 7"
    "total_weight ?S = 15"
    by (simp_all add: relax_then_harden_def run_eval)
  have "lbCost ?S = 0" by (simp add: with_softs_def pmres0_def)
  with sum_invariant[OF r] a have "total_weight ?r = 5" "lbCost ?r = 3" by simp_all
  with r a show ?thesis by blast
qed

lemma word_le_add_of_nat:
  fixes x :: u64
  assumes "unat x + n < 2 ^ 64"
  shows "x \<le> x + of_nat n"
proof -
  from assms have n: "n < 2 ^ 64" by simp
  then have "unat (of_nat n :: u64) = n" by (simp add: unat_of_nat)
  with assms have "unat (x + of_nat n) = unat x + n"
    by (simp add: unat_add_lem[THEN iffD1])
  then show ?thesis by (simp add: word_le_nat_alt)
qed

text \<open>
  C1, as the code has it: along every run of the operations of the solver (core
  relaxation, model checking, hardening, stratification, the operations of the linear
  search), \<^verbatim>\<open>ubCost\<close> never increases and \<^verbatim>\<open>known_gap\<close> never increases;
  \<^verbatim>\<open>lbCost\<close> never decreases provided that the soft weights and \<^verbatim>\<open>lbCost\<close> at the
  start of the run add up to less than \<open>2\<^sup>6\<^sup>4\<close>, so that the 64-bit addition
  \<^verbatim>\<open>lbCost += coreCost\<close> cannot wrap around.
\<close>

theorem bounds_monotone:
  assumes "run pw xs s = Some (Inr s')"
  shows "ubCost s' \<le> ubCost s \<and> known_gap s' \<le> known_gap s \<and>
         (total_weight s + unat (lbCost s) < 2 ^ 64 \<longrightarrow> lbCost s \<le> lbCost s')"
proof -
  note R = run_total_weight[OF assms]
  from R have t: "total_weight s' + absorbed_into_lb pw xs s + absorbed_into_hardened pw xs s =
                    total_weight s"
    and lb: "lbCost s' = lbCost s + of_nat (absorbed_into_lb pw xs s)"
    and ub: "ubCost s' \<le> ubCost s" and kg: "known_gap s' \<le> known_gap s"
    by blast+
  have "lbCost s \<le> lbCost s'" if "total_weight s + unat (lbCost s) < 2 ^ 64"
  proof -
    from t have "absorbed_into_lb pw xs s \<le> total_weight s" by linarith
    with that have "unat (lbCost s) + absorbed_into_lb pw xs s < 2 ^ 64" by linarith
    from word_le_add_of_nat[OF this] lb show ?thesis by simp
  qed
  with ub kg show ?thesis by blast
qed

text \<open>
  C1 as the claim states it fails on four soft clauses of weight \<open>2\<^sup>6\<^sup>3\<close> with the cores
  \<open>{0, 1}\<close> and \<open>{2, 3}\<close>: \<^verbatim>\<open>lbCost\<close> is \<open>2\<^sup>6\<^sup>3\<close> after the first relaxation
  (not above \<^verbatim>\<open>ubCost\<close>, so the loop goes on) and 0 after the second.
\<close>

definition wrapping_state :: PMRES where
  "wrapping_state =
     (with_softs [9223372036854775808, 9223372036854775808,
                  9223372036854775808, 9223372036854775808])
       \<lparr>ubCost := 9223372036854775808\<rparr>"

theorem bounds_monotone_counterexample:
  "map_option (map_sum id lbCost)
     (run exact_pow [CoreRelaxation [Lit 0 False, Lit 1 False]] wrapping_state) =
     Some (Inr 9223372036854775808) \<and>
   map_option (map_sum id lbCost)
     (run exact_pow [CoreRelaxation [Lit 0 False, Lit 1 False],
                     CoreRelaxation [Lit 2 False, Lit 3 False]] wrapping_state) =
     Some (Inr 0)"
  by (simp add: wrapping_state_def run_eval)

theorem bounds_monotone_witness:
  "total_weight ((with_softs [5, 3, 7])\<lparr>ubCost := 10\<rparr>) +
     unat (lbCost ((with_softs [5, 3, 7])\<lparr>ubCost := 10\<rparr>)) < 2 ^ 64 \<and>
   (\<exists>s'. run exact_pow [CoreRelaxation [Lit 0 False, Lit 1 False],
                         OracleModel [l_False, l_False, l_False], ModelChecking, Hardening]
            ((with_softs [5, 3, 7])\<lparr>ubCost := 10\<rparr>) = Some (Inr s') \<and>
         lbCost ((with_softs [5, 3, 7])\<lparr>ubCost := 10\<rparr>) \<le> lbCost s' \<and>
         ubCost s' \<le> ubCost ((with_softs [5, 3, 7])\<lparr>ubCost := 10\<rparr>) \<and>
         known_gap s' \<le> known_gap ((with_softs [5, 3, 7])\<lparr>ubCost := 10\<rparr>))"
proof -
  let ?S = "(with_softs [5, 3, 7])\<lparr>ubCost := 10\<rparr>"
  let ?ops = "[CoreRelaxation [Lit 0 False, Lit 1 False],
               OracleModel [l_False, l_False, l_False], ModelChecking, Hardening]"
  let ?r = "projr (the (run exact_pow ?ops ?S))"
  have r: "run exact_pow ?ops ?S = Some (Inr ?r)"
    by (simp add: run_eval checkModel_def computeCostModelPMRES_def saveModels_def)
  have j: "total_weight ?S + unat (lbCost ?S) < 2 ^ 64"
    by (simp add: run_eval)
  from bounds_monotone[OF r] j r show ?thesis by blast
qed

section \<open>initializeDivisionFactor\<close>

lemma resetMaximumWeight_loop_Max:
  "resetMaximumWeight_loop cs m = Max (insert m (weight ` set cs))"
proof (induction cs arbitrary: m)
  case Nil
  then show ?case by simp
next
  case (Cons c cs)
  have fin: "finite (weight ` set cs)" by simp
  show ?case
  proof (cases "weight c > m")
    case True
    then have "m \<le> weight c" by simp
    from Max_insert_absorb[OF fin this] True Cons.IH show ?thesis by simp
  next
    case False
    then have "weight c \<le> m" by simp
    from Max_insert_absorb[OF fin this] False Cons.IH show ?thesis
      by (simp add: insert_commute)
  qed
qed

lemma enoughSoftAboveWeight_cong:
  "enoughSoftAboveWeight c (setMaximumWeight w s) = enoughSoftAboveWeight c s"
  by (simp add: enoughSoftAboveWeight_def setMaximumWeight_def nbClausesAbove_def
      nbWeightsAbove_def nRealSoft_def nSoft_def softs_def)

lemma word_div_less:
  fixes c f :: u64
  assumes "2 \<le> unat f" and "c \<noteq> 0"
  shows "unat (c div f) < unat c"
proof -
  from assms(2) have "0 < unat c" by (simp add: unat_gt_0)
  with assms(1) have "unat c div unat f < unat c" by (simp add: div_less_dividend)
  then show ?thesis by (simp add: unat_div)
qed

lemma countDivisions_result:
  assumes f: "2 \<le> unat f"
  shows "\<exists>d. countDivisions f m c = Some (Inr (c + int d)) \<and>
             (m = 0 \<longrightarrow> d = 0) \<and>
             (m \<noteq> 0 \<longrightarrow> 0 < d \<and> unat f ^ (d - 1) \<le> unat m \<and> unat m < unat f ^ d)"
proof (induction "unat m" arbitrary: m c rule: less_induct)
  case less
  from f have f0: "f \<noteq> 0" by auto
  show ?case
  proof (cases "m = 0")
    case True
    then have "countDivisions f m c = Some (Inr (c + int 0))"
      by (subst countDivisions.simps) simp
    with True show ?thesis by blast
  next
    case False
    then have m0: "0 < m" by (simp add: word_greater_zero_iff)
    let ?m' = "m div f"
    from word_div_less[OF f False] have lt: "unat ?m' < unat m" .
    from less[OF lt, of "c + 1"] obtain d where
      r: "countDivisions f ?m' (c + 1) = Some (Inr (c + 1 + int d))"
      and z: "?m' = 0 \<longrightarrow> d = 0"
      and b: "?m' \<noteq> 0 \<longrightarrow> 0 < d \<and> unat f ^ (d - 1) \<le> unat ?m' \<and> unat ?m' < unat f ^ d"
      by blast
    have run: "countDivisions f m c = Some (Inr (c + int (Suc d)))"
      using m0 f0 r by (subst countDivisions.simps) simp
    have dv: "unat ?m' = unat m div unat f" by (simp add: unat_div)
    have fpos: "0 < unat f" using f by simp
    have lo: "unat f ^ d \<le> unat m"
    proof (cases "?m' = 0")
      case True
      with z have "d = 0" by simp
      with False show ?thesis by (simp add: unat_gt_0 Suc_leI)
    next
      case nz: False
      with b have d: "0 < d" and l: "unat f ^ (d - 1) \<le> unat m div unat f" by (simp_all add: dv)
      from d have "unat f ^ d = unat f * unat f ^ (d - 1)" by (cases d) simp_all
      also have "\<dots> \<le> unat f * (unat m div unat f)" using l by simp
      also have "\<dots> \<le> unat m" by simp
      finally show ?thesis .
    qed
    have hi: "unat m < unat f ^ Suc d"
    proof -
      have "unat m div unat f < unat f ^ d"
      proof (cases "?m' = 0")
        case True
        then have "unat m div unat f = 0" using dv by simp
        then show ?thesis using fpos by simp
      next
        case nz: False
        with b show ?thesis by (simp add: dv)
      qed
      then have "Suc (unat m div unat f) \<le> unat f ^ d" by simp
      then have "unat f * Suc (unat m div unat f) \<le> unat f * unat f ^ d"
        by (rule mult_le_mono2)
      moreover have "unat m < unat f * Suc (unat m div unat f)"
        using fpos by (metis dividend_less_times_div mult.commute mult_Suc_right add.commute)
      ultimately show ?thesis by simp
    qed
    from run lo hi False show ?thesis by (intro exI[of _ "Suc d"]) simp
  qed
qed


text \<open>
  What a result of the dividing loop says: it is the first candidate of the sequence
  \<open>c, c / f, c / f\<^sup>2, \<dots>\<close> that passes the test.
\<close>

definition first_enough :: "PMRES \<Rightarrow> u64 \<Rightarrow> u64 \<Rightarrow> bool" where
  "first_enough s c r =
     (\<exists>j. unat r = unat c div unat (varresFactor s) ^ j \<and>
          enoughSoftAboveWeight r s = Inr True \<and>
          (\<forall>i < j. enoughSoftAboveWeight
                      (of_nat (unat c div unat (varresFactor s) ^ i)) s = Inr False))"

lemma divideDown_result:
  assumes "divideDown s c = Some y"
  shows "\<forall>r. y = Inr r \<longrightarrow> first_enough s c r"
proof (rule divideDown.raw_induct[where P = "\<lambda>s c y. \<forall>r. y = Inr r \<longrightarrow> first_enough s c r",
      OF _ assms])
  fix dd :: "PMRES \<Rightarrow> u64 \<Rightarrow> (error + u64) option" and s c y
  assume IH: "\<And>s c y. dd s c = Some y \<Longrightarrow> \<forall>r. y = Inr r \<longrightarrow> first_enough s c r"
    and body: "(if isl (enoughSoftAboveWeight c s)
                then Some (Inl (projl (enoughSoftAboveWeight c s)))
                else if projr (enoughSoftAboveWeight c s) then Some (Inr c)
                else if varresFactor s = 0 then Some (Inl DivisionByZero)
                else dd s (c div varresFactor s)) = Some y"
  let ?f = "varresFactor s"
  show "\<forall>r. y = Inr r \<longrightarrow> first_enough s c r"
  proof (intro allI impI)
    fix r assume y: "y = Inr r"
    show "first_enough s c r"
    proof (cases "enoughSoftAboveWeight c s")
      case (Inl e)
      with body y show ?thesis by simp
    next
      case (Inr b)
      show ?thesis
      proof (cases b)
        case True
        with body y Inr have "r = c" by simp
        with Inr True show ?thesis unfolding first_enough_def by (intro exI[of _ 0]) simp
      next
        case False
        with body y Inr have f0: "?f \<noteq> 0" and rec: "dd s (c div ?f) = Some (Inr r)"
          by (simp_all split: if_splits)
        from IH[OF rec] obtain j where
          u: "unat r = unat (c div ?f) div unat ?f ^ j"
          and e: "enoughSoftAboveWeight r s = Inr True"
          and n: "\<forall>i < j. enoughSoftAboveWeight
                             (of_nat (unat (c div ?f) div unat ?f ^ i)) s = Inr False"
          unfolding first_enough_def by blast
        have dv: "unat (c div ?f) div unat ?f ^ i = unat c div unat ?f ^ Suc i" for i
          by (simp add: unat_div div_mult2_eq)
        have "enoughSoftAboveWeight (of_nat (unat c div unat ?f ^ i)) s = Inr False"
          if "i < Suc j" for i
        proof (cases i)
          case 0
          with Inr False show ?thesis by simp
        next
          case (Suc i')
          with that have "i' < j" by simp
          with n have "enoughSoftAboveWeight
                         (of_nat (unat (c div ?f) div unat ?f ^ i')) s = Inr False" by blast
          then show ?thesis unfolding Suc dv .
        qed
        with u e show ?thesis unfolding first_enough_def dv by (intro exI[of _ "Suc j"]) blast
      qed
    qed
  qed
qed

lemma divideDown_terminates:
  assumes f: "2 \<le> unat (varresFactor s)" and n: "0 < nbSatisfiable s"
    and z: "enoughSoftAboveWeight 0 s = Inr True"
  shows "\<exists>r. divideDown s c = Some (Inr r)"
proof (induction "unat c" arbitrary: c rule: less_induct)
  case less
  from n obtain b where b: "enoughSoftAboveWeight c s = Inr b"
    by (simp add: enoughSoftAboveWeight_def)
  from f have f0: "varresFactor s \<noteq> 0" by auto
  show ?case
  proof (cases b)
    case True
    with b have "divideDown s c = Some (Inr c)" by (subst divideDown.simps) simp
    then show ?thesis by blast
  next
    case False
    with b z have "c \<noteq> 0" by auto
    from less[OF word_div_less[OF f this]] obtain r where
      "divideDown s (c div varresFactor s) = Some (Inr r)" by blast
    with b False f0 have "divideDown s c = Some (Inr r)" by (subst divideDown.simps) simp
    then show ?thesis by blast
  qed
qed

lemma unat_power_exact:
  fixes f :: u64
  shows "unat f ^ k < 2 ^ 64 \<Longrightarrow> unat (f ^ k) = unat f ^ k"
proof (induction k)
  case 0
  then show ?case by simp
next
  case (Suc k)
  show ?case
  proof (cases "unat f = 0")
    case True
    then have "f = 0" by (simp add: unat_eq_zero)
    then show ?thesis by simp
  next
    case False
    then have "1 \<le> unat f" by simp
    then have "1 * unat f ^ k \<le> unat f * unat f ^ k" by (rule mult_le_mono1)
    then have "unat f ^ k \<le> unat f * unat f ^ k" by simp
    moreover from Suc.prems have "unat f * unat f ^ k < 2 ^ 64" by simp
    ultimately have lt: "unat f ^ k < 2 ^ 64" by (rule le_less_trans)
    from Suc.IH[OF lt] Suc.prems have "unat f * unat (f ^ k) < 2 ^ LENGTH(64)" by simp
    then have "unat (f * f ^ k) = unat f * unat (f ^ k)"
      by (simp only: unat_mult_lem[THEN iffD1])
    with Suc.IH[OF lt] show ?thesis by simp
  qed
qed

lemma first_enough_cong:
  "first_enough (setMaximumWeight w s) c r = first_enough s c r"
proof -
  have "varresFactor (setMaximumWeight w s) = varresFactor s"
    by (simp add: setMaximumWeight_def)
  then show ?thesis unfolding first_enough_def enoughSoftAboveWeight_cong by simp
qed

lemma setMaximumWeight_twice:
  "setMaximumWeight w (setMaximumWeight m s) = setMaximumWeight w s"
  by (simp add: setMaximumWeight_def)

lemma resetMaximumWeight_loop_pos: "resetMaximumWeight_loop cs 1 \<noteq> 0"
proof -
  have "1 \<le> Max (insert (1 :: u64) (weight ` set cs))" by (rule Max_ge) simp_all
  then have "1 \<le> resetMaximumWeight_loop cs 1" by (simp only: resetMaximumWeight_loop_Max)
  then show ?thesis by auto
qed

text \<open>
  Claim C8. \<^verbatim>\<open>initializeDivisionFactor(true)\<close>, for a factor of at least 2 and a state in
  which the test holds for the candidate 0 (a loop that reaches 0 ends there), returns,
  and what it stores as the maximum weight is found as follows: the first candidate is
  the \<^emph>\<open>greatest\<close> power of the factor not exceeding the maximum soft-clause weight (taken
  as at least 1), computed without wrap-around, and the result is the first candidate of
  the sequence obtained by repeated division by the factor for which the test
  \<^verbatim>\<open>enoughSoftAboveWeight\<close> holds; nothing else of the state changes. The power of the
  C library is taken as exact.
\<close>

theorem initializeDivisionFactor_greatest_power:
  assumes f: "2 \<le> unat (varresFactor s)"
    and z: "enoughSoftAboveWeight 0 s = Inr True"
  shows "\<exists>k w. unat (varresFactor s) ^ k \<le> unat (Max (insert 1 (weight ` set (softs s)))) \<and>
               unat (Max (insert 1 (weight ` set (softs s)))) < unat (varresFactor s) ^ Suc k \<and>
               unat (varresFactor s ^ k) = unat (varresFactor s) ^ k \<and>
               first_enough s (varresFactor s ^ k) w \<and>
               initializeDivisionFactor exact_pow True s = Some (Inr (setMaximumWeight w s))"
proof -
  let ?f = "varresFactor s"
  let ?M = "resetMaximumWeight_loop (softs s) 1"
  let ?s1 = "resetMaximumWeight s"
  have s1: "?s1 = setMaximumWeight ?M s" by (simp add: resetMaximumWeight_def)
  have gm: "getMaximumWeight ?s1 = ?M"
    by (simp add: resetMaximumWeight_def setMaximumWeight_def getMaximumWeight_def)
  have vf: "varresFactor ?s1 = ?f" by (simp add: resetMaximumWeight_def setMaximumWeight_def)
  have M0: "?M \<noteq> 0" by (rule resetMaximumWeight_loop_pos)
  from countDivisions_result[OF f, of ?M 0] M0 obtain d where
    cd: "countDivisions ?f ?M 0 = Some (Inr (int d))"
    and d: "0 < d" and lo: "unat ?f ^ (d - 1) \<le> unat ?M" and hi: "unat ?M < unat ?f ^ d"
    by auto
  define k where "k = d - 1"
  with d have dk: "d = Suc k" by simp
  have pw: "exact_pow ?f (int d - 1) = ?f ^ k" by (simp add: exact_pow_def dk)
  from z have n: "0 < nbSatisfiable s" by (simp add: enoughSoftAboveWeight_def split: if_splits)
  then have n1: "0 < nbSatisfiable ?s1" by (simp add: resetMaximumWeight_def setMaximumWeight_def)
  from f have f1: "2 \<le> unat (varresFactor ?s1)" by (simp only: vf)
  from z have z1: "enoughSoftAboveWeight 0 ?s1 = Inr True"
    by (simp only: s1 enoughSoftAboveWeight_cong)
  from divideDown_terminates[OF f1 n1 z1, of "?f ^ k"] obtain w where
    dd: "divideDown ?s1 (?f ^ k) = Some (Inr w)" by blast
  from divideDown_result[OF dd] have "first_enough ?s1 (?f ^ k) w" by simp
  then have fe: "first_enough s (?f ^ k) w" by (simp only: s1 first_enough_cong)
  have run: "initializeDivisionFactor exact_pow True s = Some (Inr (setMaximumWeight w s))"
    unfolding initializeDivisionFactor_def Let_def gm vf
    by (simp add: cd pw dd) (simp add: s1 setMaximumWeight_twice)
  from lo have lo': "unat ?f ^ k \<le> unat ?M" unfolding k_def .
  from hi have hi': "unat ?M < unat ?f ^ Suc k" unfolding dk .
  have "unat ?M < 2 ^ LENGTH(64)" by (rule unsigned_less)
  with lo' have "unat ?f ^ k < 2 ^ 64" by simp
  then have ex: "unat (?f ^ k) = unat ?f ^ k" by (rule unat_power_exact)
  from lo' hi' ex fe run show ?thesis unfolding resetMaximumWeight_loop_Max by blast
qed

lemmas varres_eval =
  enoughSoftAboveWeight_def nbClausesAbove_def nbWeightsAbove_def aboveAlpha_def nRealSoft_def
  resetMaximumWeight_def setMaximumWeight_def initializeDivisionFactor_def exact_pow_def
  countDivisions.simps divideDown.simps word_le_nat_alt eval_defs

theorem initializeDivisionFactor_greatest_power_witness:
  "2 \<le> unat (varresFactor (with_softs [8, 1, 1, 1])) \<and>
   enoughSoftAboveWeight 0 (with_softs [8, 1, 1, 1]) = Inr True \<and>
   initializeDivisionFactor exact_pow True (with_softs [8, 1, 1, 1]) =
     Some (Inr (setMaximumWeight 1 (with_softs [8, 1, 1, 1]))) \<and>
   enoughSoftAboveWeight 8 (with_softs [8, 1, 1, 1]) = Inr False \<and>
   (\<exists>k w. unat (varresFactor (with_softs [8, 1, 1, 1])) ^ k
             \<le> unat (Max (insert 1 (weight ` set (softs (with_softs [8, 1, 1, 1]))))) \<and>
          unat (Max (insert 1 (weight ` set (softs (with_softs [8, 1, 1, 1])))))
             < unat (varresFactor (with_softs [8, 1, 1, 1])) ^ Suc k \<and>
          unat (varresFactor (with_softs [8, 1, 1, 1]) ^ k) =
            unat (varresFactor (with_softs [8, 1, 1, 1])) ^ k \<and>
          first_enough (with_softs [8, 1, 1, 1]) (varresFactor (with_softs [8, 1, 1, 1]) ^ k) w \<and>
          initializeDivisionFactor exact_pow True (with_softs [8, 1, 1, 1]) =
            Some (Inr (setMaximumWeight w (with_softs [8, 1, 1, 1]))))"
proof -
  let ?S = "with_softs [8, 1, 1, 1]"
  have f: "2 \<le> unat (varresFactor ?S)" by (simp add: eval_defs)
  have z: "enoughSoftAboveWeight 0 ?S = Inr True" by (simp add: varres_eval)
  have r: "initializeDivisionFactor exact_pow True ?S = Some (Inr (setMaximumWeight 1 ?S))"
    by (simp add: varres_eval)
  have e: "enoughSoftAboveWeight 8 ?S = Inr False" by (simp add: varres_eval)
  from initializeDivisionFactor_greatest_power[OF f z] f z r e show ?thesis by blast
qed

text \<open>
  Three soft clauses of weight 8 and a factor of 2: the code starts from 8, the greatest
  power of 2 not exceeding 8, and keeps it; the smallest power not exceeding 8 is 1, and
  the dividing loop started there ends at 1.
\<close>

theorem initializeDivisionFactor_counterexample:
  "initializeDivisionFactor exact_pow True (with_softs [8, 8, 8]) =
     Some (Inr (setMaximumWeight 8 (with_softs [8, 8, 8]))) \<and>
   spec_first_candidate (with_softs [8, 8, 8]) = 1 \<and>
   divideDown (resetMaximumWeight (with_softs [8, 8, 8]))
     (of_nat (spec_first_candidate (with_softs [8, 8, 8]))) = Some (Inr 1)"
proof -
  let ?S = "with_softs [8, 8, 8]"
  have r: "initializeDivisionFactor exact_pow True ?S = Some (Inr (setMaximumWeight 8 ?S))"
    by (simp add: varres_eval)
  have "Min (set (powers_not_exceeding 2 8)) = 1"
  proof (rule Min_eqI)
    show "finite (set (powers_not_exceeding 2 8))" by simp
    show "1 \<le> y" if "y \<in> set (powers_not_exceeding 2 8)" for y
      using that by (auto simp: powers_not_exceeding_def)
    have "(2 :: nat) ^ 0 \<in> (\<lambda>k. 2 ^ k) ` {0..<64}" by (rule imageI) simp
    then show "1 \<in> set (powers_not_exceeding 2 8)" by (simp add: powers_not_exceeding_def)
  qed
  moreover have "unat (resetMaximumWeight_loop (softs ?S) 1) = 8" by (simp add: eval_defs)
  moreover have "unat (varresFactor ?S) = 2" by (simp add: eval_defs)
  ultimately have c: "spec_first_candidate ?S = 1" by (simp add: spec_first_candidate_def)
  have "divideDown (resetMaximumWeight ?S) 1 = Some (Inr 1)" by (simp add: varres_eval)
  with r c show ?thesis by simp
qed

end
